theory Spec2Isabelle
  imports Complex_Main "HOL-Library.AList" "HOL-Library.Multiset" "HOL-Library.Char_ord"
    "HOL-Library.List_Lexorder"
begin

section \<open>Bracket reconstruction (bracket.tsx, \<open>parseBracket\<close>)\<close>

subsection \<open>Data model\<close>

text \<open>
  \<open>PSBracketMatch.previous_matches\<close> is a list of \<open>{type, match_id}\<close> objects with
  \<open>type\<close> one of \<open>'winner'\<close> and \<open>'loser'\<close>. Of the remaining fields of \<open>PSMatch\<close>
  only \<open>id\<close> is read by \<open>parseBracket\<close>; \<open>name\<close> stands for the payload that is carried
  through unchanged.
\<close>

datatype prev_type = winner | loser

record prev_ref =
  ref_type :: prev_type
  match_id :: int

record PSBracketMatch =
  m_id :: int
  name :: string
  previous_matches :: "prev_ref list"

record BracketRound =
  label :: string
  matches :: "PSBracketMatch list"

record ParsedBracket =
  upperBracket :: "BracketRound list"
  lowerBracket :: "BracketRound list"
  grandFinal :: "PSBracketMatch option"

text \<open>
  \<open>matchMap\<close> is only looked up, so it is a partial function. \<open>depthCache\<close> and the map
  of \<open>groupByRounds\<close> are iterated (\<open>values()\<close>, \<open>keys()\<close>), so they are association
  lists in insertion order: \<open>AList.update\<close> overwrites in place or appends, as
  \<open>Map.prototype.set\<close> does.
\<close>

type_synonym matchMap = "int \<rightharpoonup> PSBracketMatch"
type_synonym depthCache = "(int \<times> nat) list"

definition build_matchMap :: "PSBracketMatch list \<Rightarrow> matchMap" where
  "build_matchMap bracketMatches = fold (\<lambda>m mm. mm(m_id m \<mapsto> m)) bracketMatches Map.empty"

text \<open>\<open>referencedIds\<close> is filled by the source and never read afterwards.\<close>

definition referencedIds :: "PSBracketMatch list \<Rightarrow> int set" where
  "referencedIds bracketMatches =
     fold (\<lambda>m s. fold (\<lambda>prev s. insert (match_id prev) s) (previous_matches m) s)
       bracketMatches {}"

subsection \<open>Depth computation\<close>

text \<open>
  \<open>getDepth\<close> is an unguarded memoised recursion: on a cyclic input it never returns
  (the call stack overflows). The model is a partial function in the option monad, the
  cache threaded through the calls; \<open>None\<close> stands for "does not return".
  \<open>mapM_cache\<close> is \<open>m.previous_matches.map((p) => getDepth(p.match_id))\<close>, left to right.
\<close>

fun mapM_cache :: "('s \<Rightarrow> 'a \<Rightarrow> ('b \<times> 's) option) \<Rightarrow> 's \<Rightarrow> 'a list \<Rightarrow> ('b list \<times> 's) option" where
  "mapM_cache f c [] = Some ([], c)"
| "mapM_cache f c (x # xs) =
     Option.bind (f c x) (\<lambda>(d, c1).
       Option.bind (mapM_cache f c1 xs) (\<lambda>(ds, c2). Some (d # ds, c2)))"

lemma mapM_cache_mono [partial_function_mono]:
  assumes "\<And>c x. mono_option (\<lambda>f. B f c x)"
  shows "mono_option (\<lambda>f. mapM_cache (B f) c xs)"
proof (induction xs arbitrary: c)
  case Nil
  show ?case by (simp add: option.const_mono)
next
  case (Cons x xs)
  have inner: "mono_option (\<lambda>f. Option.bind (mapM_cache (B f) c1 xs)
      (\<lambda>(ds, c2). Some (d # ds, c2)))" for c1 d
    by (rule bind_mono) (simp_all add: Cons.IH option.const_mono split_def)
  show ?case
    unfolding mapM_cache.simps
  proof (rule bind_mono)
    show "mono_option (\<lambda>f. B f c x)" by (rule assms)
  next
    fix y
    show "mono_option (\<lambda>f. case y of (d, c1) \<Rightarrow>
        Option.bind (mapM_cache (B f) c1 xs) (\<lambda>(ds, c2). Some (d # ds, c2)))"
      by (cases y) (simp add: inner)
  qed
qed

text \<open>\<open>Math.max(...xs)\<close>; both call sites pass a non-empty array.\<close>

definition math_max :: "nat list \<Rightarrow> nat" where
  "math_max xs = Max (set xs)"

partial_function (option) getDepth ::
  "matchMap \<Rightarrow> depthCache \<Rightarrow> int \<Rightarrow> (nat \<times> depthCache) option" where
  "getDepth matchMap depthCache matchId =
     (case map_of depthCache matchId of
        Some d \<Rightarrow> Some (d, depthCache)
      | None \<Rightarrow>
         (case matchMap matchId of
            None \<Rightarrow> Some (0, AList.update matchId 0 depthCache)
          | Some m \<Rightarrow>
             if previous_matches m = [] then Some (0, AList.update matchId 0 depthCache)
             else Option.bind
                    (mapM_cache (\<lambda>c p. getDepth matchMap c (match_id p))
                       depthCache (previous_matches m))
                    (\<lambda>(ds, c). let depth = math_max ds + 1
                               in Some (depth, AList.update matchId depth c))))"

declare getDepth.simps [code]

text \<open>The loop \<open>for (const m of bracketMatches) getDepth(m.id)\<close>, from the empty cache.\<close>

definition computeDepths :: "matchMap \<Rightarrow> PSBracketMatch list \<Rightarrow> depthCache option" where
  "computeDepths matchMap bracketMatches =
     map_option snd (mapM_cache (\<lambda>c m. getDepth matchMap c (m_id m)) [] bracketMatches)"

text \<open>\<open>depthCache.get(id) || 0\<close>\<close>

definition depth_of :: "depthCache \<Rightarrow> int \<Rightarrow> nat" where
  "depth_of depthCache i = (case map_of depthCache i of None \<Rightarrow> 0 | Some d \<Rightarrow> d)"

subsection \<open>Lower-bracket classification\<close>

definition hasLoserIncoming :: "PSBracketMatch list \<Rightarrow> int set" where
  "hasLoserIncoming bracketMatches =
     fold (\<lambda>m s. fold (\<lambda>prev s. if ref_type prev = loser then insert (m_id m) s else s)
                    (previous_matches m) s)
       bracketMatches {}"

text \<open>
  \<open>classifyLB\<close> returns its boolean and the updated \<open>isLBMatch\<close> set. The inner
  \<open>for\<close> loop returns at the first winner-type predecessor found in the set.
\<close>

definition classifyLB :: "matchMap \<Rightarrow> int set \<Rightarrow> int set \<Rightarrow> int \<Rightarrow> bool \<times> int set" where
  "classifyLB matchMap hasLoser isLBMatch matchId =
     (if matchId \<in> isLBMatch then (True, isLBMatch)
      else case matchMap matchId of
        None \<Rightarrow> (False, isLBMatch)
      | Some m \<Rightarrow>
          if matchId \<in> hasLoser then (True, insert matchId isLBMatch)
          else if list_ex (\<lambda>prev. ref_type prev = winner \<and> match_id prev \<in> isLBMatch)
                    (previous_matches m)
               then (True, insert matchId isLBMatch)
               else (False, isLBMatch))"

text \<open>\<open>Array.prototype.sort\<close> is stable; so is \<open>sort_key\<close>.\<close>

definition sortedByDepth :: "depthCache \<Rightarrow> PSBracketMatch list \<Rightarrow> PSBracketMatch list" where
  "sortedByDepth depthCache bracketMatches =
     sort_key (\<lambda>m. depth_of depthCache (m_id m)) bracketMatches"

definition seedLB :: "int set \<Rightarrow> PSBracketMatch list \<Rightarrow> int set" where
  "seedLB hasLoser byDepth =
     fold (\<lambda>m s. if m_id m \<in> hasLoser then insert (m_id m) s else s) byDepth {}"

definition classifyPass :: "matchMap \<Rightarrow> int set \<Rightarrow> PSBracketMatch list \<Rightarrow> int set \<Rightarrow> int set" where
  "classifyPass matchMap hasLoser byDepth isLBMatch =
     fold (\<lambda>m s. snd (classifyLB matchMap hasLoser s (m_id m))) byDepth isLBMatch"

definition computeIsLBMatch :: "depthCache \<Rightarrow> PSBracketMatch list \<Rightarrow> int set" where
  "computeIsLBMatch depthCache bracketMatches =
     (let matchMap = build_matchMap bracketMatches;
          hasLoser = hasLoserIncoming bracketMatches;
          byDepth = sortedByDepth depthCache bracketMatches
      in classifyPass matchMap hasLoser byDepth (seedLB hasLoser byDepth))"

subsection \<open>Grand final\<close>

definition isConvergence :: "depthCache \<Rightarrow> int set \<Rightarrow> nat \<Rightarrow> PSBracketMatch \<Rightarrow> bool" where
  "isConvergence depthCache isLBMatch maxDepth m \<longleftrightarrow>
     depth_of depthCache (m_id m) = maxDepth \<and> length (previous_matches m) \<ge> 2 \<and>
     list_ex (\<lambda>p. match_id p \<notin> isLBMatch) (previous_matches m) \<and>
     list_ex (\<lambda>p. match_id p \<in> isLBMatch) (previous_matches m)"

definition findGrandFinal ::
  "depthCache \<Rightarrow> int set \<Rightarrow> PSBracketMatch list \<Rightarrow> PSBracketMatch option" where
  "findGrandFinal depthCache isLBMatch bracketMatches =
     (let maxDepth = math_max (map snd depthCache)
      in case find (isConvergence depthCache isLBMatch maxDepth) bracketMatches of
           Some m \<Rightarrow> Some m
         | None \<Rightarrow>
            (case filter (\<lambda>m. depth_of depthCache (m_id m) = maxDepth) bracketMatches of
               [m] \<Rightarrow> Some m
             | _ \<Rightarrow> None))"

subsection \<open>Partition, round grouping and labels\<close>

definition notGrandFinal :: "PSBracketMatch option \<Rightarrow> PSBracketMatch \<Rightarrow> bool" where
  "notGrandFinal gf m = (case gf of None \<Rightarrow> True | Some g \<Rightarrow> m_id m \<noteq> m_id g)"

definition ubMatches :: "int set \<Rightarrow> PSBracketMatch option \<Rightarrow> PSBracketMatch list \<Rightarrow> PSBracketMatch list" where
  "ubMatches isLBMatch gf bracketMatches =
     filter (\<lambda>m. notGrandFinal gf m \<and> m_id m \<notin> isLBMatch) bracketMatches"

definition lbMatches :: "int set \<Rightarrow> PSBracketMatch option \<Rightarrow> PSBracketMatch list \<Rightarrow> PSBracketMatch list" where
  "lbMatches isLBMatch gf bracketMatches =
     filter (\<lambda>m. notGrandFinal gf m \<and> m_id m \<in> isLBMatch) bracketMatches"

definition groupByRounds :: "depthCache \<Rightarrow> PSBracketMatch list \<Rightarrow> (nat \<times> PSBracketMatch list) list" where
  "groupByRounds depthCache ms =
     fold (\<lambda>m rounds. let d = depth_of depthCache (m_id m)
                      in case map_of rounds d of
                           None \<Rightarrow> AList.update d [m] rounds
                         | Some r \<Rightarrow> AList.update d (r @ [m]) rounds)
       ms []"

text \<open>The decimal digits of a number, as a template literal prints it.\<close>

definition digit_char :: "nat \<Rightarrow> char" where
  "digit_char d = ''0123456789'' ! d"

fun show_nat :: "nat \<Rightarrow> string" where
  "show_nat n =
     (if 10 \<le> n then show_nat (n div 10) @ [digit_char (n mod 10)] else [digit_char n])"

declare show_nat.simps [simp del]

definition roundLabel :: "bool \<Rightarrow> nat \<Rightarrow> nat \<Rightarrow> PSBracketMatch list \<Rightarrow> string" where
  "roundLabel isLower totalRounds idx roundMatches =
     (if isLower then
        (if int idx = int totalRounds - 1 then ''LB Final''
         else ''LB Round '' @ show_nat (idx + 1))
      else if totalRounds \<le> 1 then ''Final''
      else if int idx = int totalRounds - 1 then ''UB Final''
      else if int idx = int totalRounds - 2 then ''UB Semifinal''
      else if int idx = int totalRounds - 3 \<and> length roundMatches = 4 then ''UB Quarterfinal''
      else ''UB Round '' @ show_nat (idx + 1))"

definition buildRounds :: "depthCache \<Rightarrow> PSBracketMatch list \<Rightarrow> bool \<Rightarrow> BracketRound list" where
  "buildRounds depthCache ms isLower =
     (let roundMap = groupByRounds depthCache ms;
          depths = sort (map fst roundMap);
          totalRounds = length depths
      in map (\<lambda>(idx, depth).
                let roundMatches = (case map_of roundMap depth of None \<Rightarrow> [] | Some r \<Rightarrow> r)
                in \<lparr>label = roundLabel isLower totalRounds idx roundMatches,
                    matches = roundMatches\<rparr>)
           (enumerate 0 depths))"

text \<open>\<open>s.replace(pat, rep)\<close> with a string pattern replaces the first occurrence only.\<close>

fun str_replace :: "string \<Rightarrow> string \<Rightarrow> string \<Rightarrow> string" where
  "str_replace pat rep [] = (if pat = [] then rep else [])"
| "str_replace pat rep (c # cs) =
     (if take (length pat) (c # cs) = pat then rep @ drop (length pat) (c # cs)
      else c # str_replace pat rep cs)"

definition stripUB :: "BracketRound list \<Rightarrow> BracketRound list" where
  "stripUB rounds = map (\<lambda>round. round\<lparr>label := str_replace ''UB '' [] (label round)\<rparr>) rounds"

subsection \<open>\<open>parseBracket\<close>\<close>

text \<open>
  The outer option is \<open>None\<close> when the depth recursion does not return; the inner one is
  the \<open>null\<close> returned for an empty list.
\<close>

definition parseBracket :: "PSBracketMatch list \<Rightarrow> ParsedBracket option option" where
  "parseBracket bracketMatches =
     (if bracketMatches = [] then Some None
      else case computeDepths (build_matchMap bracketMatches) bracketMatches of
        None \<Rightarrow> None
      | Some depthCache \<Rightarrow>
          let isLBMatch = computeIsLBMatch depthCache bracketMatches;
              gf = findGrandFinal depthCache isLBMatch bracketMatches;
              upper = buildRounds depthCache (ubMatches isLBMatch gf bracketMatches) False;
              lower = buildRounds depthCache (lbMatches isLBMatch gf bracketMatches) True
          in Some (Some \<lparr>upperBracket = (if lower = [] then stripUB upper else upper),
                          lowerBracket = lower,
                          grandFinal = gf\<rparr>))"

subsection \<open>A single-elimination bracket: four quarterfinals, two semifinals, one final\<close>

definition bmatch :: "int \<Rightarrow> string \<Rightarrow> (prev_type \<times> int) list \<Rightarrow> PSBracketMatch" where
  "bmatch i n ps =
     \<lparr>m_id = i, name = n,
      previous_matches = map (\<lambda>(t, j). \<lparr>ref_type = t, match_id = j\<rparr>) ps\<rparr>"

definition se_bracket :: "int \<Rightarrow> int \<Rightarrow> int \<Rightarrow> int \<Rightarrow> int \<Rightarrow> int \<Rightarrow> int \<Rightarrow> PSBracketMatch list" where
  "se_bracket q1 q2 q3 q4 s1 s2 f =
     [bmatch q1 ''QF1'' [], bmatch q2 ''QF2'' [], bmatch q3 ''QF3'' [], bmatch q4 ''QF4'' [],
      bmatch s1 ''SF1'' [(winner, q1), (winner, q2)],
      bmatch s2 ''SF2'' [(winner, q3), (winner, q4)],
      bmatch f ''F'' [(winner, s1), (winner, s2)]]"

definition single_elim_bracket :: "PSBracketMatch list" where
  "single_elim_bracket = se_bracket 101 102 103 104 201 202 301"

subsection \<open>A four-team double-elimination bracket\<close>

definition double_elim_bracket :: "PSBracketMatch list" where
  "double_elim_bracket =
     [bmatch 1 ''UB SF1'' [], bmatch 2 ''UB SF2'' [],
      bmatch 3 ''UB F'' [(winner, 1), (winner, 2)],
      bmatch 4 ''LB R1'' [(loser, 1), (loser, 2)],
      bmatch 5 ''LB F'' [(loser, 3), (winner, 4)],
      bmatch 6 ''GF'' [(winner, 3), (winner, 5)]]"

subsection \<open>A partially fetched bracket: matches 1, 2 and 3 are referenced but absent\<close>

definition partial_bracket :: "PSBracketMatch list" where
  "partial_bracket =
     [bmatch 5 ''LB F'' [(loser, 3), (winner, 4)],
      bmatch 4 ''LB R1'' [(loser, 1), (loser, 2)],
      bmatch 6 ''GF'' [(winner, 3), (winner, 5)]]"

section \<open>Match and player statistics\<close>

subsection \<open>The normalized shapes (lib/types/match-stats.ts)\<close>

text \<open>
  A JavaScript \<open>number\<close> is modelled as a real: arithmetic is exact, and \<open>NaN\<close> and the
  infinities are outside the model. An optional field (\<open>?: number\<close>) is an option,
  \<open>None\<close> for \<open>undefined\<close>. The optional \<open>faceitId\<close> and the side-split player lists are
  set by none of the normalizers below and are left out.
\<close>

record NormalizedPlayerStat =
  playerId :: string
  nickname :: string
  kills :: real
  deaths :: real
  assists :: real
  kdDiff :: real
  kdRatio :: real
  hsPercent :: "real option"
  krRatio :: "real option"
  mvps :: "real option"
  adr :: "real option"
  kast :: "real option"
  rating :: "real option"
  tripleKills :: "real option"
  quadroKills :: "real option"
  pentaKills :: "real option"

record NormalizedMapStats =
  mapName :: string
  mapNumber :: nat
  team1Score :: real
  team2Score :: real
  team1Won :: bool
  team1FirstHalf :: "real option"
  team1SecondHalf :: "real option"
  team2FirstHalf :: "real option"
  team2SecondHalf :: "real option"
  team1Overtime :: "real option"
  team2Overtime :: "real option"
  team1Players :: "NormalizedPlayerStat list"
  team2Players :: "NormalizedPlayerStat list"

datatype StatColumnKey =
  col_kills | col_deaths | col_assists | col_kdDiff | col_kdRatio | col_hsPercent |
  col_krRatio | col_mvps | col_adr | col_kast | col_rating

datatype stats_source = src_faceit | src_hltv | src_grid | src_pandascore

record NormalizedMatchStats =
  source :: stats_source
  team1Name :: string
  team2Name :: string
  team1ImageUrl :: "string option"
  team2ImageUrl :: "string option"
  maps :: "NormalizedMapStats list"
  availableColumns :: "StatColumnKey list"
  hasSideSplits :: bool

subsection \<open>Strings\<close>

text \<open>
  \<open>toUpperCase\<close> and \<open>toLowerCase\<close> on the ASCII letters; other characters are left
  as they are. \<open>show_int\<close> is the decimal form a template literal gives an integer.
\<close>

definition upper_char :: "char \<Rightarrow> char" where
  "upper_char c =
     (case map_of (zip ''abcdefghijklmnopqrstuvwxyz'' ''ABCDEFGHIJKLMNOPQRSTUVWXYZ'') c of
        Some u \<Rightarrow> u | None \<Rightarrow> c)"

definition lower_char :: "char \<Rightarrow> char" where
  "lower_char c =
     (case map_of (zip ''ABCDEFGHIJKLMNOPQRSTUVWXYZ'' ''abcdefghijklmnopqrstuvwxyz'') c of
        Some l \<Rightarrow> l | None \<Rightarrow> c)"

definition toUpperCase :: "string \<Rightarrow> string" where
  "toUpperCase s = map upper_char s"

definition toLowerCase :: "string \<Rightarrow> string" where
  "toLowerCase s = map lower_char s"

definition show_int :: "int \<Rightarrow> string" where
  "show_int i = (if 0 \<le> i then show_nat (nat i) else CHR ''-'' # show_nat (nat (- i)))"

text \<open>\<open>a || b\<close> on a possibly missing string: the empty string is falsy.\<close>

definition str_or :: "string option \<Rightarrow> string \<Rightarrow> string" where
  "str_or a b = (case a of None \<Rightarrow> b | Some s \<Rightarrow> if s = [] then b else s)"

subsection \<open>The FACEIT normalizer (lib/normalizers/faceit-stats.ts)\<close>

text \<open>
  A FACEIT stat value is a string or a number. \<open>parseFloat\<close> is the JavaScript built-in;
  it is a parameter of the model, \<open>None\<close> standing for \<open>NaN\<close>.
\<close>

datatype js_value = Str string | Num real

type_synonym parse_float = "string \<Rightarrow> real option"

definition parseNum :: "parse_float \<Rightarrow> js_value option \<Rightarrow> real" where
  "parseNum parseFloat v =
     (case v of
        None \<Rightarrow> 0
      | Some (Num n) \<Rightarrow> n
      | Some (Str s) \<Rightarrow> (case parseFloat s of None \<Rightarrow> 0 | Some parsed \<Rightarrow> parsed))"

definition parseNumOpt :: "parse_float \<Rightarrow> js_value option \<Rightarrow> real option" where
  "parseNumOpt parseFloat v =
     (case v of
        None \<Rightarrow> None
      | Some (Num n) \<Rightarrow> Some n
      | Some (Str s) \<Rightarrow> parseFloat s)"

record FaceitPlayerStats =
  fp_player_id :: string
  fp_nickname :: string
  player_stats :: "string \<rightharpoonup> js_value"

record FaceitTeam =
  team_name :: string
  team_stats :: "string \<rightharpoonup> js_value"
  players :: "FaceitPlayerStats list"

record FaceitRound =
  round_stats :: "string \<rightharpoonup> string"
  teams :: "FaceitTeam list"

record FaceitMatchStats =
  rounds :: "FaceitRound list"

definition normalizePlayer :: "parse_float \<Rightarrow> FaceitPlayerStats \<Rightarrow> NormalizedPlayerStat" where
  "normalizePlayer parseFloat p =
     (let k = parseNum parseFloat (player_stats p ''Kills'');
          d = parseNum parseFloat (player_stats p ''Deaths'');
          a = parseNum parseFloat (player_stats p ''Assists'')
      in \<lparr>playerId = fp_player_id p,
          nickname = fp_nickname p,
          kills = k,
          deaths = d,
          assists = a,
          kdDiff = k - d,
          kdRatio = (if d > 0 then k / d else k),
          hsPercent = parseNumOpt parseFloat (player_stats p ''Headshots %''),
          krRatio = parseNumOpt parseFloat (player_stats p ''K/R Ratio''),
          mvps = parseNumOpt parseFloat (player_stats p ''MVPs''),
          adr = None,
          kast = None,
          rating = None,
          tripleKills = parseNumOpt parseFloat (player_stats p ''Triple Kills''),
          quadroKills = parseNumOpt parseFloat (player_stats p ''Quadro Kills''),
          pentaKills = parseNumOpt parseFloat (player_stats p ''Penta Kills'')\<rparr>)"

text \<open>\<open>round.teams?.[i]\<close> and \<open>t?.team_stats?.[key]\<close>\<close>

definition team_at :: "FaceitRound \<Rightarrow> nat \<Rightarrow> FaceitTeam option" where
  "team_at rnd i = (if i < length (teams rnd) then Some (teams rnd ! i) else None)"

definition team_stat :: "FaceitTeam option \<Rightarrow> string \<Rightarrow> js_value option" where
  "team_stat t key = (case t of None \<Rightarrow> None | Some team \<Rightarrow> team_stats team key)"

definition final_score :: "parse_float \<Rightarrow> FaceitTeam option \<Rightarrow> real" where
  "final_score parseFloat t =
     parseNum parseFloat
       (case team_stat t ''Final Score'' of
          Some v \<Rightarrow> Some v
        | None \<Rightarrow> team_stat t ''FinalScore'')"

definition team_players :: "parse_float \<Rightarrow> FaceitTeam option \<Rightarrow> NormalizedPlayerStat list" where
  "team_players parseFloat t =
     (case t of None \<Rightarrow> [] | Some team \<Rightarrow> map (normalizePlayer parseFloat) (players team))"

definition faceit_map :: "parse_float \<Rightarrow> nat \<Rightarrow> FaceitRound \<Rightarrow> NormalizedMapStats" where
  "faceit_map parseFloat i rnd =
     (let t1 = team_at rnd 0;
          t2 = team_at rnd 1;
          s1 = final_score parseFloat t1;
          s2 = final_score parseFloat t2
      in \<lparr>mapName = str_or (round_stats rnd ''Map'') (''Map '' @ show_nat (i + 1)),
          mapNumber = i + 1,
          team1Score = s1,
          team2Score = s2,
          team1Won = (s1 > s2),
          team1FirstHalf = parseNumOpt parseFloat (team_stat t1 ''First Half Score''),
          team1SecondHalf = parseNumOpt parseFloat (team_stat t1 ''Second Half Score''),
          team2FirstHalf = parseNumOpt parseFloat (team_stat t2 ''First Half Score''),
          team2SecondHalf = parseNumOpt parseFloat (team_stat t2 ''Second Half Score''),
          team1Overtime = parseNumOpt parseFloat (team_stat t1 ''Overtime score''),
          team2Overtime = parseNumOpt parseFloat (team_stat t2 ''Overtime score''),
          team1Players = team_players parseFloat t1,
          team2Players = team_players parseFloat t2\<rparr>)"

definition faceit_columns :: "StatColumnKey list" where
  "faceit_columns =
     [col_kills, col_deaths, col_assists, col_kdDiff, col_kdRatio, col_hsPercent,
      col_krRatio, col_mvps]"

definition normalizeFaceitStats ::
  "parse_float \<Rightarrow> FaceitMatchStats \<Rightarrow> string \<Rightarrow> string \<Rightarrow> NormalizedMatchStats option" where
  "normalizeFaceitStats parseFloat stats t1Name t2Name =
     (if rounds stats = [] then None
      else Some \<lparr>source = src_faceit,
                 team1Name = t1Name,
                 team2Name = t2Name,
                 team1ImageUrl = None,
                 team2ImageUrl = None,
                 maps = map (\<lambda>(i, rnd). faceit_map parseFloat i rnd)
                          (enumerate 0 (rounds stats)),
                 availableColumns = faceit_columns,
                 hasSideSplits = False\<rparr>)"

subsection \<open>The PandaScore normalizer (lib/normalizers/pandascore-stats.ts)\<close>

record PSStats =
  ps_kills :: real
  ps_deaths :: real
  ps_assists :: real
  ps_headshots :: real
  ps_adr :: "real option"
  ps_kast :: "real option"
  ps_rating :: "real option"

record PSMatchPlayerStats =
  player_id :: int
  team_id :: int
  stats :: PSStats
  game_id :: int

text \<open>
  Of \<open>PSGame\<close> the normalizer reads \<open>id\<close>, \<open>position\<close>, \<open>status\<close>, \<open>finished\<close>,
  \<open>map?.name\<close> (here \<open>map_name\<close>) and \<open>winner?.id\<close> (here \<open>winner_id\<close>).
\<close>

record PSGame =
  g_id :: int
  position :: int
  status :: string
  finished :: bool
  map_name :: "string option"
  winner_id :: "int option"

definition formatMapName :: "string option \<Rightarrow> string" where
  "formatMapName raw =
     (case raw of
        None \<Rightarrow> ''Unknown''
      | Some r \<Rightarrow>
          if r = [] then ''Unknown''
          else let stripped = (if toLowerCase (take 3 r) = ''de_'' then drop 3 r else r)
               in (case stripped of [] \<Rightarrow> [] | c # cs \<Rightarrow> upper_char c # cs))"

definition normalizePS :: "(int \<rightharpoonup> string) \<Rightarrow> PSMatchPlayerStats \<Rightarrow> NormalizedPlayerStat" where
  "normalizePS playerNames ps =
     (let k = ps_kills (stats ps);
          d = ps_deaths (stats ps);
          a = ps_assists (stats ps);
          hs = (if k > 0 then (ps_headshots (stats ps) / k) * 100 else 0)
      in \<lparr>playerId = show_int (player_id ps),
          nickname = (case playerNames (player_id ps) of
                        Some n \<Rightarrow> n
                      | None \<Rightarrow> ''Player '' @ show_int (player_id ps)),
          kills = k,
          deaths = d,
          assists = a,
          kdDiff = k - d,
          kdRatio = (if d > 0 then k / d else k),
          hsPercent = Some hs,
          krRatio = None,
          mvps = None,
          adr = ps_adr (stats ps),
          kast = ps_kast (stats ps),
          rating = ps_rating (stats ps),
          tripleKills = None,
          quadroKills = None,
          pentaKills = None\<rparr>)"

definition ps_map ::
  "PSMatchPlayerStats list \<Rightarrow> (int \<rightharpoonup> string) \<Rightarrow> int \<Rightarrow> int \<Rightarrow> nat \<Rightarrow> PSGame \<Rightarrow> NormalizedMapStats" where
  "ps_map playerStats playerNames team1Id team2Id i game =
     (let gamePlayerStats = filter (\<lambda>ps. game_id ps = g_id game) playerStats;
          t1Stats = filter (\<lambda>ps. team_id ps = team1Id) gamePlayerStats;
          t2Stats = filter (\<lambda>ps. team_id ps = team2Id) gamePlayerStats;
          t1Won = (winner_id game = Some team1Id);
          t2Won = (winner_id game = Some team2Id)
      in \<lparr>mapName = formatMapName (map_name game),
          mapNumber = i + 1,
          team1Score = (if t1Won then 1 else 0),
          team2Score = (if t2Won then 1 else 0),
          team1Won = t1Won,
          team1FirstHalf = None,
          team1SecondHalf = None,
          team2FirstHalf = None,
          team2SecondHalf = None,
          team1Overtime = None,
          team2Overtime = None,
          team1Players = map (normalizePS playerNames) t1Stats,
          team2Players = map (normalizePS playerNames) t2Stats\<rparr>)"

definition ps_columns :: "PSMatchPlayerStats list \<Rightarrow> StatColumnKey list" where
  "ps_columns playerStats =
     [col_kills, col_deaths, col_assists, col_kdDiff, col_kdRatio, col_hsPercent]
     @ (if list_ex (\<lambda>ps. ps_adr (stats ps) \<noteq> None) playerStats then [col_adr] else [])
     @ (if list_ex (\<lambda>ps. ps_kast (stats ps) \<noteq> None) playerStats then [col_kast] else [])
     @ (if list_ex (\<lambda>ps. ps_rating (stats ps) \<noteq> None) playerStats then [col_rating] else [])"

definition normalizePandaScoreStats ::
  "PSMatchPlayerStats list \<Rightarrow> PSGame list \<Rightarrow> string \<Rightarrow> string \<Rightarrow> int \<Rightarrow> int \<Rightarrow>
   string option \<Rightarrow> string option \<Rightarrow> (int \<rightharpoonup> string) \<Rightarrow> NormalizedMatchStats option" where
  "normalizePandaScoreStats playerStats games t1Name t2Name team1Id team2Id t1Image t2Image
       playerNames =
     (if playerStats = [] then None
      else if games = [] then None
      else let sortedGames = sort_key position games;
               played = filter (\<lambda>g. finished g \<or> status g = ''running'') sortedGames;
               ms = map (\<lambda>(i, game). ps_map playerStats playerNames team1Id team2Id i game)
                      (enumerate 0 played)
           in if ms = [] then None
              else Some \<lparr>source = src_pandascore,
                         team1Name = t1Name,
                         team2Name = t2Name,
                         team1ImageUrl = t1Image,
                         team2ImageUrl = t2Image,
                         maps = ms,
                         availableColumns = ps_columns playerStats,
                         hasSideSplits = False\<rparr>)"

subsection \<open>The Grid per-player normalizer (lib/normalizers/grid-stats.ts)\<close>

record GridGamePlayerStats =
  grid_id :: string
  grid_name :: string
  grid_kills :: real
  grid_deaths :: real
  killAssistsGiven :: real
  grid_headshots :: real
  damageDealt :: real

definition normalizePlayer_grid :: "GridGamePlayerStats \<Rightarrow> real \<Rightarrow> NormalizedPlayerStat" where
  "normalizePlayer_grid p totalRounds =
     (let k = grid_kills p;
          d = grid_deaths p;
          a = killAssistsGiven p;
          hs = (if k > 0 then (grid_headshots p / k) * 100 else 0);
          dmg = (if totalRounds > 0 then damageDealt p / totalRounds else 0)
      in \<lparr>playerId = grid_id p,
          nickname = grid_name p,
          kills = k,
          deaths = d,
          assists = a,
          kdDiff = k - d,
          kdRatio = (if d > 0 then k / d else k),
          hsPercent = Some hs,
          krRatio = None,
          mvps = None,
          adr = Some dmg,
          kast = None,
          rating = None,
          tripleKills = None,
          quadroKills = None,
          pentaKills = None\<rparr>)"

subsection \<open>Cross-map aggregation (app/components/MatchStatsTable.tsx)\<close>

text \<open>
  The \<open>else\<close> branch of the loop of \<open>aggregatePlayerStats\<close>: the row \<open>p\<close> of a further
  map is merged into the copy \<open>existing\<close> kept in \<open>playerMap\<close>. The assignments happen in
  the source's order, so \<open>k\<close> and \<open>d\<close> below are already the summed kills and deaths.
\<close>

definition sum_opt :: "real option \<Rightarrow> real option \<Rightarrow> real option" where
  "sum_opt e p =
     (case p of
        None \<Rightarrow> e
      | Some v \<Rightarrow> Some ((case e of None \<Rightarrow> 0 | Some w \<Rightarrow> w) + v))"

definition avg_opt :: "real option \<Rightarrow> real option \<Rightarrow> real option" where
  "avg_opt e p =
     (case (p, e) of
        (Some v, Some w) \<Rightarrow> Some ((w + v) / 2)
      | _ \<Rightarrow> e)"

definition mergeStat :: "NormalizedPlayerStat \<Rightarrow> NormalizedPlayerStat \<Rightarrow> NormalizedPlayerStat" where
  "mergeStat existing p =
     (let k = kills existing + kills p;
          d = deaths existing + deaths p;
          a = assists existing + assists p
      in existing
          \<lparr>kills := k,
           deaths := d,
           assists := a,
           kdDiff := k - d,
           kdRatio := (if d > 0 then k / d else k),
           hsPercent :=
             (case (hsPercent p, hsPercent existing) of
                (Some ph, Some eh) \<Rightarrow>
                  (let prevHSCount = (k - kills p) * (eh / 100);
                       curHSCount = kills p * (ph / 100)
                   in Some (if k > 0 then ((prevHSCount + curHSCount) / k) * 100 else 0))
              | _ \<Rightarrow> hsPercent existing),
           mvps := sum_opt (mvps existing) (mvps p),
           krRatio := avg_opt (krRatio existing) (krRatio p),
           adr := avg_opt (adr existing) (adr p),
           kast := avg_opt (kast existing) (kast p),
           rating := avg_opt (rating existing) (rating p),
           tripleKills := sum_opt (tripleKills existing) (tripleKills p),
           quadroKills := sum_opt (quadroKills existing) (quadroKills p),
           pentaKills := sum_opt (pentaKills existing) (pentaKills p)\<rparr>)"

text \<open>
  \<open>playerMap\<close> is a \<open>Map\<close> in insertion order, and the result is \<open>playerMap.values()\<close>.
  \<open>teamKey\<close> selects \<open>team1Players\<close> or \<open>team2Players\<close> of a map.
\<close>

definition aggregateStep ::
  "NormalizedPlayerStat \<Rightarrow> (string \<times> NormalizedPlayerStat) list \<Rightarrow> (string \<times> NormalizedPlayerStat) list" where
  "aggregateStep p playerMap =
     (case map_of playerMap (playerId p) of
        None \<Rightarrow> AList.update (playerId p) p playerMap
      | Some existing \<Rightarrow> AList.update (playerId p) (mergeStat existing p) playerMap)"

definition aggregatePlayerMap ::
  "NormalizedMapStats list \<Rightarrow> (NormalizedMapStats \<Rightarrow> NormalizedPlayerStat list) \<Rightarrow>
   (string \<times> NormalizedPlayerStat) list" where
  "aggregatePlayerMap ms teamKey = fold (\<lambda>m playerMap. fold aggregateStep (teamKey m) playerMap) ms []"

definition aggregatePlayerStats ::
  "NormalizedMapStats list \<Rightarrow> (NormalizedMapStats \<Rightarrow> NormalizedPlayerStat list) \<Rightarrow>
   NormalizedPlayerStat list" where
  "aggregatePlayerStats ms teamKey = map snd (aggregatePlayerMap ms teamKey)"

subsection \<open>Example payloads\<close>

definition faceit_player :: FaceitPlayerStats where
  "faceit_player =
     \<lparr>fp_player_id = ''p1'', fp_nickname = ''alpha'',
      player_stats = [''Kills'' \<mapsto> Num 10, ''Deaths'' \<mapsto> Num 4, ''Assists'' \<mapsto> Num 2,
                      ''Headshots'' \<mapsto> Num 5, ''Headshots %'' \<mapsto> Num 40]\<rparr>"

definition faceit_example :: FaceitMatchStats where
  "faceit_example =
     \<lparr>rounds = [\<lparr>round_stats = [''Map'' \<mapsto> ''de_mirage''],
                 teams = [\<lparr>team_name = ''A'', team_stats = [''Final Score'' \<mapsto> Str ''13''],
                           players = [faceit_player]\<rparr>,
                          \<lparr>team_name = ''B'', team_stats = [''Final Score'' \<mapsto> Str ''9''],
                           players = []\<rparr>]\<rparr>]\<rparr>"

definition ps_player :: "int \<Rightarrow> real option \<Rightarrow> PSMatchPlayerStats" where
  "ps_player i a =
     \<lparr>player_id = i, team_id = 1,
      stats = \<lparr>ps_kills = 20, ps_deaths = 0, ps_assists = 3, ps_headshots = 5,
               ps_adr = a, ps_kast = None, ps_rating = None\<rparr>,
      game_id = 7\<rparr>"

definition ps_example_games :: "PSGame list" where
  "ps_example_games =
     [\<lparr>g_id = 7, position = 1, status = ''finished'', finished = True,
       map_name = Some ''de_nuke'', winner_id = Some 1\<rparr>]"

definition example_row :: NormalizedPlayerStat where
  "example_row =
     \<lparr>playerId = ''p1'', nickname = ''alpha'', kills = 20, deaths = 10, assists = 3,
      kdDiff = 10, kdRatio = 2, hsPercent = Some 25, krRatio = Some (3 / 4), mvps = Some 2,
      adr = Some 80, kast = None, rating = None,
      tripleKills = Some 1, quadroKills = None, pentaKills = None\<rparr>"

definition map_of_rows :: "NormalizedPlayerStat list \<Rightarrow> NormalizedMapStats" where
  "map_of_rows rows =
     \<lparr>mapName = ''Mirage'', mapNumber = 1, team1Score = 13, team2Score = 9, team1Won = True,
      team1FirstHalf = None, team1SecondHalf = None, team2FirstHalf = None,
      team2SecondHalf = None, team1Overtime = None, team2Overtime = None,
      team1Players = rows, team2Players = []\<rparr>"

definition three_maps :: "NormalizedMapStats list" where
  "three_maps = [map_of_rows [example_row], map_of_rows [example_row], map_of_rows [example_row]]"


text \<open>One player over several maps, the maps differing in the ADR only.\<close>

definition adr_maps :: "real list \<Rightarrow> NormalizedMapStats list" where
  "adr_maps vs = map (\<lambda>v. map_of_rows [example_row\<lparr>adr := Some v\<rparr>]) vs"
section \<open>Grouping tournaments by series (app/page.tsx, \<open>groupBySerie\<close>)\<close>

subsection \<open>Data model\<close>

text \<open>
  An annotated tournament carries the precomputed \<open>_status\<close> and \<open>_isNA\<close> (here
  \<open>t_status\<close> and \<open>t_isNA\<close>). The code reads \<open>serie\<close> through \<open>?.\<close>, so it is optional.
\<close>

datatype event_status = ongoing | upcoming | completed

record League =
  league_name :: string
  league_url :: "string option"
  league_image_url :: "string option"

record Serie =
  serie_id :: int
  full_name :: "string option"
  serie_name :: "string option"

record AnnotatedTournament =
  t_id :: int
  t_name :: string
  tier :: string
  begin_at :: "string option"
  end_at :: "string option"
  league :: League
  serie :: "Serie option"
  t_status :: event_status
  t_isNA :: bool

record ProEvent =
  ev_id :: string
  ev_name :: string
  ev_tier :: string
  ev_league :: string
  leagueImageUrl :: "string option"
  startDate :: string
  endDate :: "string option"
  ev_status :: event_status
  ev_url :: "string option"
  isNA :: bool
  serieId :: "int option"
  tournamentCount :: "nat option"

subsection \<open>Tier ranks\<close>

text \<open>
  \<open>TIER_RANK\<close> is an object literal with the five keys \<open>s\<close>, \<open>a\<close>, \<open>b\<close>, \<open>c\<close>, \<open>d\<close>; a
  lookup that misses them goes on to \<open>Object.prototype\<close>. The key is a lower-cased string,
  and the only property names of \<open>Object.prototype\<close> without an upper-case letter are
  \<open>constructor\<close> (the function \<open>Object\<close>) and \<open>__proto__\<close> (the prototype object itself).
  Both are neither \<open>null\<close> nor \<open>undefined\<close>, so \<open>?? 99\<close> keeps them.
\<close>

datatype js_rank = Rank nat | ObjectCtor | ProtoObject

definition TIER_RANK :: "string \<rightharpoonup> nat" where
  "TIER_RANK = map_of [(''s'', 0), (''a'', 1), (''b'', 2), (''c'', 3), (''d'', 4)]"

definition tier_lookup :: "string \<Rightarrow> js_rank" where
  "tier_lookup t =
     (let k = toLowerCase t
      in case TIER_RANK k of
           Some r \<Rightarrow> Rank r
         | None \<Rightarrow> if k = ''constructor'' then ObjectCtor
                   else if k = ''__proto__'' then ProtoObject
                   else Rank 99)"

text \<open>
  \<open>rank < bestRank\<close>. Two numbers compare as numbers. An object operand is first turned
  into a string: \<open>[object Object]\<close> for the prototype object and \<open>function Object() ...\<close>
  for the constructor. Against a number that string becomes \<open>NaN\<close> and the comparison is
  false; two strings compare by code units, and \<open>[\<close> comes before \<open>f\<close>.
\<close>

fun rank_less :: "js_rank \<Rightarrow> js_rank \<Rightarrow> bool" where
  "rank_less (Rank a) (Rank b) \<longleftrightarrow> a < b"
| "rank_less ProtoObject ObjectCtor \<longleftrightarrow> True"
| "rank_less _ _ \<longleftrightarrow> False"

text \<open>\<open>tier?.toUpperCase() || '?'\<close>\<close>

definition shown_tier :: "string \<Rightarrow> string" where
  "shown_tier t = (if toUpperCase t = [] then ''?'' else toUpperCase t)"

subsection \<open>Grouping\<close>

text \<open>
  The key is \<open>serie-<id>\<close> when the series id is truthy (present and not 0) and
  \<open>tour-<id>\<close> otherwise; the two families of strings are kept apart by a datatype.
\<close>

datatype group_key = SerieKey int | TourKey int

definition groupKey :: "AnnotatedTournament \<Rightarrow> group_key" where
  "groupKey t =
     (case serie t of
        None \<Rightarrow> TourKey (t_id t)
      | Some s \<Rightarrow> if serie_id s \<noteq> 0 then SerieKey (serie_id s) else TourKey (t_id t))"

definition groupBySerie_step ::
  "AnnotatedTournament \<Rightarrow> (group_key \<times> AnnotatedTournament list) list \<Rightarrow>
   (group_key \<times> AnnotatedTournament list) list" where
  "groupBySerie_step t groups =
     (case map_of groups (groupKey t) of
        None \<Rightarrow> AList.update (groupKey t) [t] groups
      | Some g \<Rightarrow> AList.update (groupKey t) (g @ [t]) groups)"

definition serieGroups :: "AnnotatedTournament list \<Rightarrow> (group_key \<times> AnnotatedTournament list) list" where
  "serieGroups tournaments = fold groupBySerie_step tournaments []"

subsection \<open>Events\<close>

definition serieNameOf :: "AnnotatedTournament \<Rightarrow> string" where
  "serieNameOf t =
     (case serie t of
        None \<Rightarrow> []
      | Some s \<Rightarrow> str_or (full_name s) (str_or (serie_name s) []))"

definition singleEvent :: "AnnotatedTournament \<Rightarrow> ProEvent" where
  "singleEvent t =
     \<lparr>ev_id = ''ps-'' @ show_int (t_id t),
      ev_name = (if serieNameOf t \<noteq> []
                 then league_name (league t) @ '': '' @ serieNameOf t @ '' - '' @ t_name t
                 else league_name (league t) @ '' - '' @ t_name t),
      ev_tier = shown_tier (tier t),
      ev_league = league_name (league t),
      leagueImageUrl = league_image_url (league t),
      startDate = str_or (begin_at t) [],
      endDate = end_at t,
      ev_status = t_status t,
      ev_url = league_url (league t),
      isNA = t_isNA t,
      serieId = None,
      tournamentCount = None\<rparr>"

definition aggregateStatus :: "AnnotatedTournament list \<Rightarrow> event_status" where
  "aggregateStatus grp =
     (if list_ex (\<lambda>t. t_status t = ongoing) grp then ongoing
      else if list_ex (\<lambda>t. t_status t = upcoming) grp then upcoming
      else completed)"

text \<open>
  \<open>group.reduce((best, t) => rank < bestRank ? t.tier : best, group[0].tier)\<close>, with
  \<open>rank\<close> and \<open>bestRank\<close> the lookups of \<open>t.tier\<close> and \<open>best\<close>.
\<close>

definition bestTier :: "AnnotatedTournament list \<Rightarrow> string" where
  "bestTier grp =
     fold (\<lambda>t best. if rank_less (tier_lookup (tier t)) (tier_lookup best) then tier t else best)
       grp (tier (hd grp))"

text \<open>\<open>.filter(Boolean)\<close> on the dates drops \<open>null\<close> and the empty string.\<close>

definition truthy_dates :: "string option list \<Rightarrow> string list" where
  "truthy_dates ds = concat (map (\<lambda>d. case d of None \<Rightarrow> [] | Some s \<Rightarrow> if s = [] then [] else [s]) ds)"

definition multiEvent :: "AnnotatedTournament list \<Rightarrow> ProEvent" where
  "multiEvent grp =
     (let first = hd grp;
          sid = map_option serie_id (serie first);
          beginDates = truthy_dates (map begin_at grp);
          endDates = truthy_dates (map end_at grp)
      in \<lparr>ev_id = ''ps-serie-'' @ (case sid of None \<Rightarrow> ''undefined'' | Some i \<Rightarrow> show_int i),
          ev_name = (if serieNameOf first \<noteq> []
                     then league_name (league first) @ '': '' @ serieNameOf first
                     else league_name (league first)),
          ev_tier = shown_tier (bestTier grp),
          ev_league = league_name (league first),
          leagueImageUrl = league_image_url (league first),
          startDate = (if beginDates \<noteq> [] then hd (sort beginDates) else []),
          endDate = (if endDates \<noteq> [] then Some (hd (rev (sort endDates))) else None),
          ev_status = aggregateStatus grp,
          ev_url = league_url (league first),
          isNA = list_ex t_isNA grp,
          serieId = sid,
          tournamentCount = Some (length grp)\<rparr>)"

definition groupBySerie :: "AnnotatedTournament list \<Rightarrow> ProEvent list" where
  "groupBySerie tournaments =
     map (\<lambda>(key, grp). if length grp = 1 then singleEvent (hd grp) else multiEvent grp)
       (serieGroups tournaments)"

subsection \<open>Two stages of one series\<close>

definition stage :: "int \<Rightarrow> string \<Rightarrow> event_status \<Rightarrow> AnnotatedTournament" where
  "stage i tr st =
     \<lparr>t_id = i, t_name = ''Stage'', tier = tr,
      begin_at = Some ''2026-01-10T10:00:00Z'', end_at = None,
      league = \<lparr>league_name = ''League'', league_url = None, league_image_url = None\<rparr>,
      serie = Some \<lparr>serie_id = 42, full_name = Some ''Season 1'', serie_name = None\<rparr>,
      t_status = st, t_isNA = False\<rparr>"

definition two_stages :: "AnnotatedTournament list" where
  "two_stages = [stage 1 ''A'' completed, stage 2 ''S'' ongoing]"


subsection \<open>Two stages, one of them with a tier named like an inherited property\<close>

definition odd_stages :: "AnnotatedTournament list" where
  "odd_stages = [stage 1 ''constructor'' completed, stage 2 ''A'' ongoing]"
section \<open>Notions used in the statements and proofs\<close>

subsection \<open>Bracket\<close>

text \<open>
  Acyclicity of the previous-match graph, as a rank that decreases along every
  reference to a listed match. References to ids that are not listed are unconstrained.
\<close>

definition ranked :: "(int \<Rightarrow> nat) \<Rightarrow> PSBracketMatch list \<Rightarrow> bool" where
  "ranked r ms \<longleftrightarrow>
     (\<forall>m\<in>set ms. \<forall>p\<in>set (previous_matches m).
        match_id p \<in> m_id ` set ms \<longrightarrow> r (match_id p) < r (m_id m))"

text \<open>The same on the index, dangling ids at rank 0.\<close>

definition wf_rank :: "matchMap \<Rightarrow> (int \<Rightarrow> nat) \<Rightarrow> bool" where
  "wf_rank mm \<mu> \<longleftrightarrow>
     (\<forall>i m. mm i = Some m \<longrightarrow> (\<forall>p\<in>set (previous_matches m). \<mu> (match_id p) < \<mu> i))"

text \<open>
  A cache is consistent when its keys are distinct and every entry is 0 for a dangling
  id or a root, and otherwise one more than the largest cached depth of the predecessors,
  which are all cached.
\<close>

definition entry_ok :: "matchMap \<Rightarrow> depthCache \<Rightarrow> int \<Rightarrow> nat \<Rightarrow> bool" where
  "entry_ok mm c i d \<longleftrightarrow>
     (case mm i of
        None \<Rightarrow> d = 0
      | Some m \<Rightarrow>
          if previous_matches m = [] then d = 0
          else (\<forall>p\<in>set (previous_matches m). map_of c (match_id p) \<noteq> None) \<and>
               d = Suc (Max ((\<lambda>p. depth_of c (match_id p)) ` set (previous_matches m))))"

definition cache_ok :: "matchMap \<Rightarrow> depthCache \<Rightarrow> bool" where
  "cache_ok mm c \<longleftrightarrow>
     distinct (map fst c) \<and> (\<forall>i d. map_of c i = Some d \<longrightarrow> entry_ok mm c i d)"

text \<open>What a returning call of \<open>getDepth\<close>, and a run of them, guarantees.\<close>

definition depth_post ::
  "matchMap \<Rightarrow> (int \<Rightarrow> nat) \<Rightarrow> depthCache \<Rightarrow> int \<Rightarrow> nat \<Rightarrow> depthCache \<Rightarrow> bool" where
  "depth_post mm \<mu> c i d c' \<longleftrightarrow>
     cache_ok mm c' \<and> map_of c \<subseteq>\<^sub>m map_of c' \<and> map_of c' i = Some d \<and>
     (\<forall>k. map_of c' k \<noteq> None \<longrightarrow> map_of c k \<noteq> None \<or> \<mu> k \<le> \<mu> i)"

definition mapM_post ::
  "matchMap \<Rightarrow> (int \<Rightarrow> nat) \<Rightarrow> ('a \<Rightarrow> int) \<Rightarrow> depthCache \<Rightarrow> 'a list \<Rightarrow> nat list \<Rightarrow> depthCache \<Rightarrow> bool" where
  "mapM_post mm \<mu> key c xs ds c' \<longleftrightarrow>
     cache_ok mm c' \<and> map_of c \<subseteq>\<^sub>m map_of c' \<and>
     ds = map (\<lambda>x. depth_of c' (key x)) xs \<and>
     (\<forall>x\<in>set xs. map_of c' (key x) \<noteq> None) \<and>
     (\<forall>k. map_of c' k \<noteq> None \<longrightarrow> map_of c k \<noteq> None \<or> (\<exists>x\<in>set xs. \<mu> k \<le> \<mu> (key x)))"

text \<open>All matches a parsed bracket shows: upper rounds, lower rounds, grand final.\<close>

definition placedMatches :: "ParsedBracket \<Rightarrow> PSBracketMatch list" where
  "placedMatches pb =
     concat (map matches (upperBracket pb)) @ concat (map matches (lowerBracket pb)) @
     (case grandFinal pb of None \<Rightarrow> [] | Some g \<Rightarrow> [g])"

text \<open>The body of the loop of \<open>groupByRounds\<close>.\<close>

definition groupStep :: "depthCache \<Rightarrow> PSBracketMatch \<Rightarrow> (nat \<times> PSBracketMatch list) list \<Rightarrow> (nat \<times> PSBracketMatch list) list" where
  "groupStep c m rmap = (let d = depth_of c (m_id m)
                      in case map_of rmap d of
                           None \<Rightarrow> AList.update d [m] rmap
                         | Some r \<Rightarrow> AList.update d (r @ [m]) rmap)"

text \<open>
  The depth of a match is the length of the longest chain of previous-match references
  below it: 0 for an id that is not listed and for a match without references, and
  otherwise one more than the largest depth among the referenced ids. On an acyclic
  input these equations have exactly one solution.
\<close>

definition chain_depth :: "matchMap \<Rightarrow> (int \<Rightarrow> nat) \<Rightarrow> bool" where
  "chain_depth mm d \<longleftrightarrow>
     (\<forall>i. d i = (case mm i of
                   None \<Rightarrow> 0
                 | Some m \<Rightarrow> if previous_matches m = [] then 0
                             else 1 + Max ((\<lambda>p. d (match_id p)) ` set (previous_matches m))))"



subsection \<open>Statistics\<close>

text \<open>The kill-death invariant of a player record.\<close>

definition kd_inv :: "NormalizedPlayerStat \<Rightarrow> bool" where
  "kd_inv a \<longleftrightarrow>
     kdDiff a = kills a - deaths a \<and>
     (deaths a > 0 \<longrightarrow> kdRatio a = kills a / deaths a) \<and>
     (deaths a = 0 \<longrightarrow> kdRatio a = kills a)"

text \<open>
  The player records a normalizer output emits, and the column keys a record populates:
  the five numeric fields are always set, an optional field when it is not \<open>undefined\<close>.
\<close>

definition emitted :: "NormalizedMatchStats \<Rightarrow> NormalizedPlayerStat set" where
  "emitted out = (\<Union>m\<in>set (maps out). set (team1Players m) \<union> set (team2Players m))"

definition core_columns :: "StatColumnKey set" where
  "core_columns = {col_kills, col_deaths, col_assists, col_kdDiff, col_kdRatio}"

definition populated :: "NormalizedPlayerStat \<Rightarrow> StatColumnKey set" where
  "populated a =
     core_columns
     \<union> (if hsPercent a = None then {} else {col_hsPercent})
     \<union> (if krRatio a = None then {} else {col_krRatio})
     \<union> (if mvps a = None then {} else {col_mvps})
     \<union> (if adr a = None then {} else {col_adr})
     \<union> (if kast a = None then {} else {col_kast})
     \<union> (if rating a = None then {} else {col_rating})"

text \<open>
  A player's per-map rows, in map order; the total of an optional counter over the maps
  that carry it; the unweighted average of a value over the maps; and the kills-weighted
  headshot percentage.
\<close>

definition playerRows ::
  "NormalizedMapStats list \<Rightarrow> (NormalizedMapStats \<Rightarrow> NormalizedPlayerStat list) \<Rightarrow> string \<Rightarrow>
   NormalizedPlayerStat list" where
  "playerRows ms teamKey pid = filter (\<lambda>p. playerId p = pid) (concat (map teamKey ms))"

definition opt_total :: "real option list \<Rightarrow> real option" where
  "opt_total xs =
     (if \<forall>x\<in>set xs. x = None then None
      else Some (\<Sum>x\<leftarrow>xs. case x of None \<Rightarrow> 0 | Some v \<Rightarrow> v))"

definition mean :: "real list \<Rightarrow> real" where
  "mean vs = sum_list vs / real (length vs)"

definition weighted_hs :: "NormalizedPlayerStat list \<Rightarrow> real" where
  "weighted_hs rows =
     (\<Sum>x\<leftarrow>rows. kills x * (case hsPercent x of None \<Rightarrow> 0 | Some h \<Rightarrow> h))
       / (\<Sum>x\<leftarrow>rows. kills x)"

subsection \<open>Series\<close>

text \<open>The tournaments of the list that carry the series id \<open>s\<close>, in list order.\<close>

definition membersOf :: "int \<Rightarrow> AnnotatedTournament list \<Rightarrow> AnnotatedTournament list" where
  "membersOf s ts = filter (\<lambda>t. map_option serie_id (serie t) = Some s) ts"


text \<open>
  The rank order of the tiers: 0 to 4 for S, A, B, C, D in either case, 99 for every
  other tier.
\<close>

definition tier_rank :: "string \<Rightarrow> nat" where
  "tier_rank t = (case TIER_RANK (toLowerCase t) of None \<Rightarrow> 99 | Some r \<Rightarrow> r)"

text \<open>
  A tier is plain when its lower-case form is not one of the two inherited property
  names. The provider's tiers (\<open>s\<close>, \<open>a\<close>, \<open>b\<close>, \<open>c\<close>, \<open>d\<close>, \<open>unranked\<close>) are plain.
\<close>

definition plain_tier :: "string \<Rightarrow> bool" where
  "plain_tier t \<longleftrightarrow> toLowerCase t \<noteq> ''constructor'' \<and> toLowerCase t \<noteq> ''__proto__''"
section \<open>Theorems about \<open>parseBracket\<close>\<close>

subsection \<open>The match index\<close>

lemma build_matchMap_fold:
  "fold (\<lambda>m mm. mm(m_id m \<mapsto> m)) ms mm0 = mm0 ++ map_of (rev (map (\<lambda>m. (m_id m, m)) ms))"
proof (induction ms arbitrary: mm0)
  case Nil
  show ?case by simp
next
  case (Cons a ms)
  have "mm0(m_id a \<mapsto> a) = mm0 ++ map_of [(m_id a, a)]" by simp
  then show ?case
    by (simp only: fold_simps Cons.IH list.map rev.simps map_of_append map_add_assoc)
qed

lemma build_matchMap_alt:
  "build_matchMap ms = map_of (rev (map (\<lambda>m. (m_id m, m)) ms))"
  unfolding build_matchMap_def by (simp add: build_matchMap_fold)

lemma build_matchMap_Some:
  "build_matchMap ms i = Some m \<Longrightarrow> m \<in> set ms \<and> m_id m = i"
  unfolding build_matchMap_alt by (auto dest!: map_of_SomeD)

lemma build_matchMap_dom: "dom (build_matchMap ms) = m_id ` set ms"
  unfolding build_matchMap_alt by (simp add: dom_map_of_conv_image_fst image_image)

lemma build_matchMap_distinct:
  assumes "distinct (map m_id ms)" "m \<in> set ms"
  shows "build_matchMap ms (m_id m) = Some m"
proof -
  have "distinct (map fst (rev (map (\<lambda>m. (m_id m, m)) ms)))"
    using assms(1) by (simp add: rev_map[symmetric] comp_def)
  moreover have "(m_id m, m) \<in> set (rev (map (\<lambda>m. (m_id m, m)) ms))"
    using assms(2) by auto
  ultimately show ?thesis
    unfolding build_matchMap_alt by (rule map_of_is_SomeI)
qed

lemma ranked_wf_rank:
  assumes "ranked r ms"
  shows "wf_rank (build_matchMap ms) (\<lambda>i. if i \<in> m_id ` set ms then Suc (r i) else 0)"
  unfolding wf_rank_def
proof (intro allI impI ballI)
  fix i m p
  assume mm: "build_matchMap ms i = Some m" and p: "p \<in> set (previous_matches m)"
  from build_matchMap_Some[OF mm] have m: "m \<in> set ms" "m_id m = i" by auto
  show "(if match_id p \<in> m_id ` set ms then Suc (r (match_id p)) else 0)
        < (if i \<in> m_id ` set ms then Suc (r i) else 0)"
    using assms m p unfolding ranked_def by auto
qed

subsection \<open>\<open>getDepth\<close> returns on acyclic inputs\<close>

lemma map_le_SomeD: "m1 \<subseteq>\<^sub>m m2 \<Longrightarrow> m1 k = Some v \<Longrightarrow> m2 k = Some v"
  by (metis domI map_le_def)

lemma depth_of_map_le:
  "map_of c \<subseteq>\<^sub>m map_of c' \<Longrightarrow> map_of c k \<noteq> None \<Longrightarrow> depth_of c' k = depth_of c k"
  by (auto simp: depth_of_def dest: map_le_SomeD)

lemma entry_ok_mono:
  assumes "entry_ok mm c k v" and le: "map_of c \<subseteq>\<^sub>m map_of c'"
  shows "entry_ok mm c' k v"
proof (cases "mm k")
  case None
  with assms show ?thesis by (simp add: entry_ok_def)
next
  case (Some m)
  show ?thesis
  proof (cases "previous_matches m = []")
    case True
    with Some assms show ?thesis by (simp add: entry_ok_def)
  next
    case False
    from assms(1) Some False
    have dom: "\<forall>p\<in>set (previous_matches m). map_of c (match_id p) \<noteq> None"
      and v: "v = Suc (Max ((\<lambda>p. depth_of c (match_id p)) ` set (previous_matches m)))"
      by (simp_all add: entry_ok_def)
    have dom': "\<forall>p\<in>set (previous_matches m). map_of c' (match_id p) \<noteq> None"
      using dom le by (auto dest: map_le_SomeD)
    have "(\<lambda>p. depth_of c' (match_id p)) ` set (previous_matches m)
        = (\<lambda>p. depth_of c (match_id p)) ` set (previous_matches m)"
      using dom by (intro image_cong refl depth_of_map_le[OF le]) auto
    with v dom' Some False show ?thesis by (simp add: entry_ok_def)
  qed
qed

lemma cache_ok_update:
  assumes ok: "cache_ok mm c" and fresh: "map_of c i = None" and e: "entry_ok mm c i d"
  shows "cache_ok mm (AList.update i d c)"
proof -
  have le: "map_of c \<subseteq>\<^sub>m map_of (AList.update i d c)"
    using fresh by (auto simp: map_le_def update_conv')
  have "entry_ok mm (AList.update i d c) k v" if "map_of (AList.update i d c) k = Some v" for k v
  proof (cases "k = i")
    case True
    with that have "v = d" by (simp add: update_conv')
    with e True show ?thesis by (auto intro: entry_ok_mono[OF _ le])
  next
    case False
    with that have "map_of c k = Some v" by (simp add: update_conv')
    with ok have "entry_ok mm c k v" by (simp add: cache_ok_def)
    then show ?thesis by (rule entry_ok_mono[OF _ le])
  qed
  moreover have "distinct (map fst (AList.update i d c))"
    using ok by (simp add: cache_ok_def distinct_update)
  ultimately show ?thesis by (simp add: cache_ok_def)
qed

lemma mapM_getDepth:
  assumes step: "\<And>x c. x \<in> set xs \<Longrightarrow> cache_ok mm c \<Longrightarrow>
             \<exists>d c'. getDepth mm c (key x) = Some (d, c') \<and> depth_post mm \<mu> c (key x) d c'"
    and ok: "cache_ok mm c"
  shows "\<exists>ds c'. mapM_cache (\<lambda>c x. getDepth mm c (key x)) c xs = Some (ds, c') \<and>
           mapM_post mm \<mu> key c xs ds c'"
  using assms
proof (induction xs arbitrary: c)
  case Nil
  then show ?case by (simp add: mapM_post_def)
next
  case (Cons x xs)
  from Cons.prems(1)[of x c] Cons.prems(2)
  obtain d c1 where g: "getDepth mm c (key x) = Some (d, c1)"
    and post: "depth_post mm \<mu> c (key x) d c1" by auto
  from post have ok1: "cache_ok mm c1" and le1: "map_of c \<subseteq>\<^sub>m map_of c1"
    and d1: "map_of c1 (key x) = Some d"
    and new1: "\<forall>k. map_of c1 k \<noteq> None \<longrightarrow> map_of c k \<noteq> None \<or> \<mu> k \<le> \<mu> (key x)"
    by (simp_all add: depth_post_def)
  have "\<exists>ds c'. mapM_cache (\<lambda>c x. getDepth mm c (key x)) c1 xs = Some (ds, c') \<and>
           mapM_post mm \<mu> key c1 xs ds c'"
    by (rule Cons.IH) (use Cons.prems(1) ok1 in auto)
  then obtain ds c2 where m: "mapM_cache (\<lambda>c x. getDepth mm c (key x)) c1 xs = Some (ds, c2)"
    and post2: "mapM_post mm \<mu> key c1 xs ds c2"
    by blast
  from post2 have ok2: "cache_ok mm c2" and le2: "map_of c1 \<subseteq>\<^sub>m map_of c2"
    and ds: "ds = map (\<lambda>x. depth_of c2 (key x)) xs"
    and dom2: "\<forall>x\<in>set xs. map_of c2 (key x) \<noteq> None"
    and new2: "\<forall>k. map_of c2 k \<noteq> None \<longrightarrow> map_of c1 k \<noteq> None \<or> (\<exists>x\<in>set xs. \<mu> k \<le> \<mu> (key x))"
    by (simp_all add: mapM_post_def)
  have d2: "map_of c2 (key x) = Some d" using le2 d1 by (rule map_le_SomeD)
  have r: "mapM_cache (\<lambda>c x. getDepth mm c (key x)) c (x # xs) = Some (d # ds, c2)"
    using g m by simp
  have "map_of c \<subseteq>\<^sub>m map_of c2" using le1 le2 by (rule map_le_trans)
  moreover have "d # ds = map (\<lambda>x. depth_of c2 (key x)) (x # xs)"
    using ds d2 by (simp add: depth_of_def)
  moreover have "\<forall>y\<in>set (x # xs). map_of c2 (key y) \<noteq> None"
    using dom2 d2 by auto
  moreover have "\<forall>k. map_of c2 k \<noteq> None \<longrightarrow>
      map_of c k \<noteq> None \<or> (\<exists>y\<in>set (x # xs). \<mu> k \<le> \<mu> (key y))"
    using new1 new2 by (metis list.set_intros(1,2))
  ultimately have "mapM_post mm \<mu> key c (x # xs) (d # ds) c2"
    using ok2 unfolding mapM_post_def by blast
  with r show ?case by blast
qed

lemma getDepth_ok:
  assumes wf: "wf_rank mm \<mu>"
  shows "cache_ok mm c \<Longrightarrow>
         \<exists>d c'. getDepth mm c i = Some (d, c') \<and> depth_post mm \<mu> c i d c'"
proof (induction "\<mu> i" arbitrary: i c rule: less_induct)
  case less
  note ok = less.prems
  show ?case
  proof (cases "map_of c i")
    case (Some d)
    then have "getDepth mm c i = Some (d, c)" by (subst getDepth.simps) simp
    moreover have "depth_post mm \<mu> c i d c"
      using ok Some by (simp add: depth_post_def)
    ultimately show ?thesis by blast
  next
    case None
    note fresh = None
    show ?thesis
    proof (cases "mm i")
      case None
      then have "getDepth mm c i = Some (0, AList.update i 0 c)"
        using fresh by (subst getDepth.simps) simp
      moreover have "cache_ok mm (AList.update i 0 c)"
        using ok fresh None by (intro cache_ok_update) (simp_all add: entry_ok_def)
      then have "depth_post mm \<mu> c i 0 (AList.update i 0 c)"
        using fresh by (auto simp: depth_post_def update_conv' map_le_def)
      ultimately show ?thesis by blast
    next
      case (Some m)
      show ?thesis
      proof (cases "previous_matches m = []")
        case True
        then have "getDepth mm c i = Some (0, AList.update i 0 c)"
          using fresh Some by (subst getDepth.simps) simp
        moreover have "cache_ok mm (AList.update i 0 c)"
          using ok fresh Some True by (intro cache_ok_update) (simp_all add: entry_ok_def)
        then have "depth_post mm \<mu> c i 0 (AList.update i 0 c)"
          using fresh by (auto simp: depth_post_def update_conv' map_le_def)
        ultimately show ?thesis by blast
      next
        case False
        let ?ps = "previous_matches m"
        have lt: "\<mu> (match_id p) < \<mu> i" if "p \<in> set ?ps" for p
          using wf Some that by (auto simp: wf_rank_def)
        have "\<exists>ds c'. mapM_cache (\<lambda>c x. getDepth mm c (match_id x)) c ?ps = Some (ds, c') \<and>
           mapM_post mm \<mu> match_id c ?ps ds c'"
          by (rule mapM_getDepth) (use less.hyps lt ok in auto)
        then obtain ds c1 where
          m: "mapM_cache (\<lambda>c x. getDepth mm c (match_id x)) c ?ps = Some (ds, c1)"
          and post1: "mapM_post mm \<mu> match_id c ?ps ds c1"
          by blast
        from post1 have ok1: "cache_ok mm c1" and le1: "map_of c \<subseteq>\<^sub>m map_of c1"
          and ds: "ds = map (\<lambda>x. depth_of c1 (match_id x)) ?ps"
          and dom1: "\<forall>x\<in>set ?ps. map_of c1 (match_id x) \<noteq> None"
          and new1: "\<forall>k. map_of c1 k \<noteq> None \<longrightarrow>
                 map_of c k \<noteq> None \<or> (\<exists>x\<in>set ?ps. \<mu> k \<le> \<mu> (match_id x))"
          by (simp_all add: mapM_post_def)
        let ?d = "math_max ds + 1"
        have g: "getDepth mm c i = Some (?d, AList.update i ?d c1)"
          using fresh Some False m by (subst getDepth.simps) simp
        have fresh1: "map_of c1 i = None"
        proof (rule ccontr)
          assume "map_of c1 i \<noteq> None"
          with new1 fresh obtain x where "x \<in> set ?ps" "\<mu> i \<le> \<mu> (match_id x)" by auto
          with lt[of x] show False by simp
        qed
        have "entry_ok mm c1 i ?d"
          using Some False dom1 ds by (simp add: entry_ok_def math_max_def image_image)
        with ok1 fresh1 have ok2: "cache_ok mm (AList.update i ?d c1)"
          by (rule cache_ok_update)
        have "map_of c1 \<subseteq>\<^sub>m map_of (AList.update i ?d c1)"
          using fresh1 by (auto simp: map_le_def update_conv')
        with le1 have le2: "map_of c \<subseteq>\<^sub>m map_of (AList.update i ?d c1)"
          by (rule map_le_trans)
        have "\<forall>k. map_of (AList.update i ?d c1) k \<noteq> None \<longrightarrow> map_of c k \<noteq> None \<or> \<mu> k \<le> \<mu> i"
        proof (intro allI impI)
          fix k assume k: "map_of (AList.update i ?d c1) k \<noteq> None"
          show "map_of c k \<noteq> None \<or> \<mu> k \<le> \<mu> i"
          proof (cases "k = i")
            case True then show ?thesis by simp
          next
            case False
            with k have "map_of c1 k \<noteq> None" by (simp add: update_conv')
            with new1 have "map_of c k \<noteq> None \<or> (\<exists>x\<in>set ?ps. \<mu> k \<le> \<mu> (match_id x))" by blast
            with lt show ?thesis by (meson le_less_trans less_imp_le)
          qed
        qed
        with ok2 le2 have "depth_post mm \<mu> c i ?d (AList.update i ?d c1)"
          by (simp add: depth_post_def update_conv')
        with g show ?thesis by blast
      qed
    qed
  qed
qed

subsection \<open>The depth cache\<close>

lemma computeDepths_ok:
  assumes wf: "wf_rank mm \<mu>"
  shows "\<exists>c. computeDepths mm ms = Some c \<and> cache_ok mm c \<and>
             (\<forall>m\<in>set ms. map_of c (m_id m) \<noteq> None)"
proof -
  have "cache_ok mm []" by (simp add: cache_ok_def)
  then have "\<exists>ds c'. mapM_cache (\<lambda>c x. getDepth mm c (m_id x)) [] ms = Some (ds, c') \<and>
           mapM_post mm \<mu> m_id [] ms ds c'"
    by (intro mapM_getDepth getDepth_ok[OF wf])
  then show ?thesis
    by (auto simp: computeDepths_def mapM_post_def)
qed

lemma cache_entry: "cache_ok mm c \<Longrightarrow> map_of c i = Some d \<Longrightarrow> entry_ok mm c i d"
  unfolding cache_ok_def by blast

lemma cache_depth_Suc:
  assumes "cache_ok mm c" "mm i = Some m" "map_of c i \<noteq> None" "previous_matches m \<noteq> []"
  shows "depth_of c i = Suc (Max ((\<lambda>p. depth_of c (match_id p)) ` set (previous_matches m)))"
proof -
  from assms(3) obtain d where d: "map_of c i = Some d" by auto
  from cache_entry[OF assms(1) d] assms(2,4)
  have "d = Suc (Max ((\<lambda>p. depth_of c (match_id p)) ` set (previous_matches m)))"
    by (simp add: entry_ok_def)
  with d show ?thesis by (simp add: depth_of_def)
qed

lemma cache_depth_root:
  assumes "cache_ok mm c" "mm i = Some m" "previous_matches m = []"
  shows "depth_of c i = 0"
proof (cases "map_of c i")
  case None
  then show ?thesis by (simp add: depth_of_def)
next
  case (Some d)
  from cache_entry[OF assms(1) Some] assms(2,3) have "d = 0" by (simp add: entry_ok_def)
  with Some show ?thesis by (simp add: depth_of_def)
qed

lemma cache_depth_dangling:
  assumes "cache_ok mm c" "mm i = None"
  shows "depth_of c i = 0"
proof (cases "map_of c i")
  case None
  then show ?thesis by (simp add: depth_of_def)
next
  case (Some d)
  from cache_entry[OF assms(1) Some] assms(2) have "d = 0" by (simp add: entry_ok_def)
  with Some show ?thesis by (simp add: depth_of_def)
qed

lemma cache_depth_less:
  assumes "cache_ok mm c" "mm i = Some m" "map_of c i \<noteq> None" "p \<in> set (previous_matches m)"
  shows "depth_of c (match_id p) < depth_of c i"
proof -
  from assms(4) have ne: "previous_matches m \<noteq> []" by auto
  have "depth_of c (match_id p) \<le> Max ((\<lambda>p. depth_of c (match_id p)) ` set (previous_matches m))"
    using assms(4) by (intro Max_ge) auto
  with cache_depth_Suc[OF assms(1-3) ne] show ?thesis by simp
qed

lemma cache_max:
  assumes ok: "cache_ok mm c" and dom: "\<forall>m\<in>set ms. map_of c (m_id m) \<noteq> None"
    and mm: "\<And>i m. mm i = Some m \<Longrightarrow> m \<in> set ms \<and> m_id m = i" and ne: "ms \<noteq> []"
  shows "math_max (map snd c) = Max ((\<lambda>m. depth_of c (m_id m)) ` set ms)"
  unfolding math_max_def
proof (rule Max_eqI[symmetric])
  let ?D = "(\<lambda>m. depth_of c (m_id m)) ` set ms"
  show "finite ?D" by simp
  have fin: "finite (set (map snd c))" by simp
  from ne obtain m0 where m0: "m0 \<in> set ms" by (cases ms) auto
  have mem: "depth_of c (m_id m) \<in> set (map snd c)" if "m \<in> set ms" for m
  proof -
    from dom that obtain d where d: "map_of c (m_id m) = Some d" by auto
    then have "(m_id m, d) \<in> set c" by (rule map_of_SomeD)
    then have "d \<in> set (map snd c)" by force
    with d show ?thesis by (simp add: depth_of_def)
  qed
  show "Max (set (map snd c)) \<in> ?D"
  proof -
    have nonempty: "set (map snd c) \<noteq> {}" using mem[OF m0] by auto
    from Max_in[OF fin nonempty] obtain k where k: "(k, Max (set (map snd c))) \<in> set c"
      by auto
    from ok have "distinct (map fst c)" by (simp add: cache_ok_def)
    with k have kv: "map_of c k = Some (Max (set (map snd c)))" by simp
    show ?thesis
    proof (cases "mm k")
      case None
      with cache_entry[OF ok kv] have z: "Max (set (map snd c)) = 0" by (simp add: entry_ok_def)
      have "depth_of c (m_id m0) \<le> Max (set (map snd c))"
        using mem[OF m0] fin by (intro Max_ge)
      with z have "depth_of c (m_id m0) = Max (set (map snd c))" by simp
      with m0 show ?thesis by (metis image_eqI)
    next
      case (Some m)
      from mm[OF Some] have "m \<in> set ms" "m_id m = k" by auto
      with kv have "depth_of c (m_id m) = Max (set (map snd c))" by (simp add: depth_of_def)
      with \<open>m \<in> set ms\<close> show ?thesis by (metis image_eqI)
    qed
  qed
  fix y assume "y \<in> ?D"
  then obtain m where "m \<in> set ms" "y = depth_of c (m_id m)" by auto
  with mem[of m] fin show "y \<le> Max (set (map snd c))" by (auto intro: Max_ge)
qed

subsection \<open>Partition and rounds\<close>

lemma mset_concat_update_Some:
  "map_of al k = Some r \<Longrightarrow>
     mset (concat (map snd (AList.update k (r @ [m]) al))) = mset (concat (map snd al)) + {#m#}"
  by (induction al) (auto split: if_splits)

lemma mset_concat_update_None:
  "map_of al k = None \<Longrightarrow>
     mset (concat (map snd (AList.update k [m] al))) = mset (concat (map snd al)) + {#m#}"
  by (induction al) (auto split: if_splits)

lemma groupStep_mset:
  "mset (concat (map snd (groupStep c m rmap))) = mset (concat (map snd rmap)) + {#m#}"
  by (simp add: groupStep_def Let_def mset_concat_update_Some mset_concat_update_None
      split: option.split)

lemma groupStep_distinct:
  "distinct (map fst rmap) \<Longrightarrow> distinct (map fst (groupStep c m rmap))"
  by (simp add: groupStep_def Let_def distinct_update split: option.split)

lemma groupFold:
  "distinct (map fst acc) \<Longrightarrow>
   distinct (map fst (fold (groupStep c) ms acc)) \<and>
   mset (concat (map snd (fold (groupStep c) ms acc))) = mset (concat (map snd acc)) + mset ms"
  by (induction ms arbitrary: acc) (simp_all add: groupStep_mset groupStep_distinct)

lemma groupByRounds_alt: "groupByRounds c ms = fold (groupStep c) ms []"
  unfolding groupByRounds_def groupStep_def ..

lemma groupByRounds_distinct: "distinct (map fst (groupByRounds c ms))"
  using groupFold[of "[]" c ms] by (simp add: groupByRounds_alt)

lemma groupByRounds_mset: "mset (concat (map snd (groupByRounds c ms))) = mset ms"
  using groupFold[of "[]" c ms] by (simp add: groupByRounds_alt)

lemma lookup_keys:
  "distinct (map fst al) \<Longrightarrow>
     map (\<lambda>k. case map_of al k of None \<Rightarrow> [] | Some r \<Rightarrow> r) (map fst al) = map snd al"
  by (induction al) (auto simp: rev_image_eqI)

lemma buildRounds_matches:
  "map matches (buildRounds c ms isLower) =
     map (\<lambda>k. case map_of (groupByRounds c ms) k of None \<Rightarrow> [] | Some r \<Rightarrow> r)
       (sort (map fst (groupByRounds c ms)))"
proof -
  have "map matches (map (\<lambda>(idx, depth). \<lparr>label = f idx depth, matches = g depth\<rparr>) (enumerate 0 ds))
        = map g ds" for f :: "nat \<Rightarrow> nat \<Rightarrow> string" and g and ds :: "nat list"
  proof -
    have "map matches (map (\<lambda>(idx, depth). \<lparr>label = f idx depth, matches = g depth\<rparr>) (enumerate 0 ds))
        = map g (map snd (enumerate 0 ds))"
      by (simp add: split_def comp_def del: map_snd_enumerate)
    then show ?thesis by (simp only: map_snd_enumerate)
  qed
  then show ?thesis
    unfolding buildRounds_def Let_def by simp
qed

lemma mset_concat_map_sort:
  "mset (concat (map f (sort ks))) = mset (concat (map f ks))"
proof -
  have "mset (map (mset \<circ> f) (sort ks)) = mset (map (mset \<circ> f) ks)" by simp
  then have "sum_mset (mset (map (mset \<circ> f) (sort ks))) = sum_mset (mset (map (mset \<circ> f) ks))"
    by (rule arg_cong)
  then show ?thesis by (simp only: mset_concat sum_mset_sum_list map_map)
qed

lemma buildRounds_mset:
  "mset (concat (map matches (buildRounds c ms isLower))) = mset ms"
proof -
  let ?al = "groupByRounds c ms"
  let ?look = "\<lambda>k. case map_of ?al k of None \<Rightarrow> [] | Some r \<Rightarrow> r"
  have "mset (concat (map matches (buildRounds c ms isLower)))
      = mset (concat (map ?look (map fst ?al)))"
    by (simp only: buildRounds_matches mset_concat_map_sort)
  also have "\<dots> = mset (concat (map snd ?al))"
    by (simp only: lookup_keys[OF groupByRounds_distinct])
  finally show ?thesis by (simp add: groupByRounds_mset)
qed

lemma stripUB_matches: "map matches (stripUB rs) = map matches rs"
  by (simp add: stripUB_def comp_def)

lemma filter_same_key:
  "distinct (map f xs) \<Longrightarrow> x \<in> set xs \<Longrightarrow> filter (\<lambda>y. f y = f x) xs = [x]"
proof (induction xs)
  case Nil
  then show ?case by simp
next
  case (Cons a xs)
  show ?case
  proof (cases "a = x")
    case True
    with Cons.prems have "\<forall>y\<in>set xs. f y \<noteq> f x" by (auto simp: image_iff)
    then have "filter (\<lambda>y. f y = f x) xs = []" by (simp add: filter_empty_conv)
    with True show ?thesis by simp
  next
    case False
    with Cons.prems have "x \<in> set xs" "f a \<noteq> f x" by (auto simp: image_iff)
    with Cons show ?thesis by simp
  qed
qed

lemma findGrandFinal_mem:
  "findGrandFinal c lb ms = Some g \<Longrightarrow> g \<in> set ms"
proof -
  assume a: "findGrandFinal c lb ms = Some g"
  let ?mx = "math_max (map snd c)"
  show ?thesis
  proof (cases "find (isConvergence c lb ?mx) ms")
    case (Some m)
    with a have "m = g" by (simp add: findGrandFinal_def)
    with Some show ?thesis by (auto simp: find_Some_iff)
  next
    case None
    with a have "filter (\<lambda>m. depth_of c (m_id m) = ?mx) ms = [g]"
      by (auto simp: findGrandFinal_def split: list.splits)
    then have "g \<in> set (filter (\<lambda>m. depth_of c (m_id m) = ?mx) ms)" by simp
    then show ?thesis by simp
  qed
qed

lemma partition_mset:
  assumes d: "distinct (map m_id ms)" and g: "\<And>g. gf = Some g \<Longrightarrow> g \<in> set ms"
  shows "mset (ubMatches lb gf ms) + mset (lbMatches lb gf ms) +
           mset (case gf of None \<Rightarrow> [] | Some g \<Rightarrow> [g]) = mset ms"
proof -
  have split: "mset (ubMatches lb gf ms) + mset (lbMatches lb gf ms) = mset (filter (notGrandFinal gf) ms)"
  proof -
    have "filter (\<lambda>m. notGrandFinal gf m \<and> m_id m \<notin> lb) ms
          = filter (\<lambda>m. m_id m \<notin> lb) (filter (notGrandFinal gf) ms)"
      by (simp add: conj_commute)
    moreover have "filter (\<lambda>m. notGrandFinal gf m \<and> m_id m \<in> lb) ms
          = filter (\<lambda>m. m_id m \<in> lb) (filter (notGrandFinal gf) ms)"
      by (simp add: conj_commute)
    ultimately show ?thesis
      unfolding ubMatches_def lbMatches_def
      by (simp only: mset_filter) (simp add: add.commute)
  qed
  show ?thesis
  proof (cases gf)
    case None
    then have "filter (notGrandFinal gf) ms = ms" by (simp add: notGrandFinal_def)
    with split have "mset (ubMatches lb gf ms) + mset (lbMatches lb gf ms) = mset ms" by simp
    with None show ?thesis by simp
  next
    case (Some g0)
    with g have mem: "g0 \<in> set ms" by simp
    have one: "filter (\<lambda>m. m_id m = m_id g0) ms = [g0]"
      using d mem by (rule filter_same_key)
    have ng: "notGrandFinal gf = (\<lambda>m. \<not> m_id m = m_id g0)"
      using Some by (simp add: notGrandFinal_def fun_eq_iff)
    have "mset (filter (\<lambda>m. \<not> m_id m = m_id g0) ms) + mset (filter (\<lambda>m. m_id m = m_id g0) ms) = mset ms"
      by (induction ms) simp_all
    then have "mset (filter (notGrandFinal gf) ms) + mset [g0] = mset ms"
      by (simp only: one ng)
    then have "mset (ubMatches lb gf ms) + mset (lbMatches lb gf ms) + mset [g0] = mset ms"
      by (simp only: split)
    then show ?thesis by (simp only: Some option.case)
  qed
qed

lemma parseBracket_returns:
  assumes ne: "ms \<noteq> []" and r: "ranked r ms"
  obtains c pb where "computeDepths (build_matchMap ms) ms = Some c"
    and "cache_ok (build_matchMap ms) c" and "\<forall>m\<in>set ms. map_of c (m_id m) \<noteq> None"
    and "parseBracket ms = Some (Some pb)"
    and "grandFinal pb = findGrandFinal c (computeIsLBMatch c ms) ms"
    and "map matches (upperBracket pb) =
           map matches (buildRounds c (ubMatches (computeIsLBMatch c ms) (grandFinal pb) ms) False)"
    and "map matches (lowerBracket pb) =
           map matches (buildRounds c (lbMatches (computeIsLBMatch c ms) (grandFinal pb) ms) True)"
proof -
  from computeDepths_ok[OF ranked_wf_rank[OF r], of ms]
  obtain c where c: "computeDepths (build_matchMap ms) ms = Some c"
    "cache_ok (build_matchMap ms) c" "\<forall>m\<in>set ms. map_of c (m_id m) \<noteq> None"
    by blast
  let ?lb = "computeIsLBMatch c ms"
  let ?gf = "findGrandFinal c ?lb ms"
  let ?upper = "buildRounds c (ubMatches ?lb ?gf ms) False"
  let ?lower = "buildRounds c (lbMatches ?lb ?gf ms) True"
  define pb where "pb = \<lparr>upperBracket = (if ?lower = [] then stripUB ?upper else ?upper),
                          lowerBracket = ?lower, grandFinal = ?gf\<rparr>"
  have "parseBracket ms = Some (Some pb)"
    by (simp add: parseBracket_def ne c(1) Let_def pb_def)
  moreover have "grandFinal pb = ?gf" by (simp add: pb_def)
  moreover have "map matches (upperBracket pb) = map matches ?upper"
    by (simp add: pb_def stripUB_matches)
  moreover have "map matches (lowerBracket pb) = map matches ?lower" by (simp add: pb_def)
  ultimately show thesis using c that by simp
qed

text \<open>
  C1. For a non-empty list of matches with pairwise distinct ids whose previous-match
  references are acyclic (a rank decreases along every reference to a listed match),
  \<open>parseBracket\<close> returns a bracket, and the matches of its upper rounds, its lower
  rounds and its grand final slot, taken together, are exactly the input matches, each
  once: none is dropped, none is duplicated, and no id occurs twice.
\<close>

theorem parseBracket_partition:
  assumes ne: "ms \<noteq> []" and d: "distinct (map m_id ms)" and r: "ranked r ms"
  shows "\<exists>pb. parseBracket ms = Some (Some pb) \<and>
              mset (placedMatches pb) = mset ms \<and>
              distinct (map m_id (placedMatches pb))"
proof -
  from ne r obtain c pb where pb: "parseBracket ms = Some (Some pb)"
    and gf: "grandFinal pb = findGrandFinal c (computeIsLBMatch c ms) ms"
    and up: "map matches (upperBracket pb) =
           map matches (buildRounds c (ubMatches (computeIsLBMatch c ms) (grandFinal pb) ms) False)"
    and lo: "map matches (lowerBracket pb) =
           map matches (buildRounds c (lbMatches (computeIsLBMatch c ms) (grandFinal pb) ms) True)"
    by (rule parseBracket_returns)
  let ?lb = "computeIsLBMatch c ms"
  have "mset (placedMatches pb)
      = mset (ubMatches ?lb (grandFinal pb) ms) + mset (lbMatches ?lb (grandFinal pb) ms)
        + mset (case grandFinal pb of None \<Rightarrow> [] | Some g \<Rightarrow> [g])"
    unfolding placedMatches_def mset_append up lo buildRounds_mset by (simp add: add.assoc)
  also have "\<dots> = mset ms"
    by (rule partition_mset[OF d]) (rule findGrandFinal_mem, simp only: gf)
  finally have m: "mset (placedMatches pb) = mset ms" .
  then have "mset (map m_id (placedMatches pb)) = mset (map m_id ms)"
    by (metis mset_map)
  then have "distinct (map m_id (placedMatches pb))"
    using d by (metis mset_eq_imp_distinct_iff)
  with m pb show ?thesis by blast
qed

theorem parseBracket_partition_witness:
  "double_elim_bracket \<noteq> [] \<and> distinct (map m_id double_elim_bracket) \<and>
   ranked nat double_elim_bracket \<and>
   (\<exists>pb. parseBracket double_elim_bracket = Some (Some pb) \<and>
         mset (placedMatches pb) = mset double_elim_bracket \<and>
         distinct (map m_id (placedMatches pb)))"
proof -
  have ne: "double_elim_bracket \<noteq> []" by (simp add: double_elim_bracket_def)
  have d: "distinct (map m_id double_elim_bracket)"
    by (simp add: double_elim_bracket_def bmatch_def)
  have r: "ranked nat double_elim_bracket"
    by (simp add: ranked_def double_elim_bracket_def bmatch_def)
  from parseBracket_partition[OF ne d r] ne d r show ?thesis by blast
qed

subsection \<open>Classification\<close>

lemma loser_fold:
  "fold (\<lambda>prev s. if ref_type prev = loser then insert i s else s) ps s
     = (if \<exists>p\<in>set ps. ref_type p = loser then insert i s else s)"
  by (induction ps arbitrary: s) auto

lemma hasLoser_fold:
  "fold (\<lambda>m s. if \<exists>p\<in>set (previous_matches m). ref_type p = loser then insert (m_id m) s else s)
       ms s0
     = s0 \<union> {m_id m | m. m \<in> set ms \<and> (\<exists>p\<in>set (previous_matches m). ref_type p = loser)}"
  by (induction ms arbitrary: s0) auto

lemma hasLoserIncoming_eq:
  "hasLoserIncoming ms
     = {m_id m | m. m \<in> set ms \<and> (\<exists>p\<in>set (previous_matches m). ref_type p = loser)}"
  unfolding hasLoserIncoming_def loser_fold hasLoser_fold by simp

lemma seed_fold:
  "fold (\<lambda>m s. if m_id m \<in> hl then insert (m_id m) s else s) xs s0
     = s0 \<union> (hl \<inter> m_id ` set xs)"
  by (induction xs arbitrary: s0) auto

lemma seedLB_eq: "seedLB hl xs = hl \<inter> m_id ` set xs"
  unfolding seedLB_def seed_fold by simp

lemma classifyLB_mono: "S \<subseteq> snd (classifyLB mm hl S i)"
  by (auto simp: classifyLB_def split: option.split)

lemma classifyLB_bound: "snd (classifyLB mm hl S i) \<subseteq> insert i S"
  by (auto simp: classifyLB_def split: option.split)

lemma classifyLB_adds:
  assumes "mm i = Some m" "p \<in> set (previous_matches m)" "ref_type p = winner" "match_id p \<in> S"
  shows "i \<in> snd (classifyLB mm hl S i)"
  using assms by (auto simp: classifyLB_def list_ex_iff)

lemma classifyPass_Cons:
  "classifyPass mm hl (a # xs) S = classifyPass mm hl xs (snd (classifyLB mm hl S (m_id a)))"
  by (simp add: classifyPass_def)

lemma classifyPass_mono: "S \<subseteq> classifyPass mm hl xs S"
proof (induction xs arbitrary: S)
  case Nil
  show ?case by (simp add: classifyPass_def)
next
  case (Cons a xs)
  have "S \<subseteq> snd (classifyLB mm hl S (m_id a))" by (rule classifyLB_mono)
  also have "\<dots> \<subseteq> classifyPass mm hl xs (snd (classifyLB mm hl S (m_id a)))" by (rule Cons.IH)
  finally show ?case by (simp only: classifyPass_Cons)
qed

lemma classifyPass_bound: "classifyPass mm hl xs S \<subseteq> S \<union> m_id ` set xs"
proof (induction xs arbitrary: S)
  case Nil
  show ?case by (simp add: classifyPass_def)
next
  case (Cons a xs)
  have "classifyPass mm hl xs (snd (classifyLB mm hl S (m_id a)))
        \<subseteq> snd (classifyLB mm hl S (m_id a)) \<union> m_id ` set xs" by (rule Cons.IH)
  also have "\<dots> \<subseteq> insert (m_id a) S \<union> m_id ` set xs"
    using classifyLB_bound[of mm hl S "m_id a"] by blast
  finally show ?case by (simp only: classifyPass_Cons) auto
qed

lemma classifyPass_closed:
  assumes mm: "\<forall>m\<in>set xs. mm (m_id m) = Some m"
    and order: "\<And>ys m zs p. xs = ys @ m # zs \<Longrightarrow> p \<in> set (previous_matches m) \<Longrightarrow>
                  match_id p \<notin> m_id ` set (m # zs)"
    and m: "m \<in> set xs" and p: "p \<in> set (previous_matches m)" "ref_type p = winner"
    and inlb: "match_id p \<in> classifyPass mm hl xs S0"
  shows "m_id m \<in> classifyPass mm hl xs S0"
  using mm order m inlb
proof (induction xs arbitrary: S0)
  case Nil
  then show ?case by simp
next
  case (Cons a xs)
  let ?S1 = "snd (classifyLB mm hl S0 (m_id a))"
  have inlb1: "match_id p \<in> classifyPass mm hl xs ?S1"
    using Cons.prems(4) by (simp only: classifyPass_Cons)
  have order': "match_id p \<notin> m_id ` set (m # zs)"
    if "xs = ys @ m # zs" "p \<in> set (previous_matches m)" for ys m zs p
    using Cons.prems(2)[of "a # ys" m zs p] that by simp
  show ?case
  proof (cases "m \<in> set xs")
    case True
    have "m_id m \<in> classifyPass mm hl xs ?S1"
      by (rule Cons.IH) (use Cons.prems(1) order' True inlb1 in auto)
    then show ?thesis by (simp only: classifyPass_Cons)
  next
    case False
    with Cons.prems(3) have ma: "m = a" by simp
    have notin: "match_id p \<notin> m_id ` set (a # xs)"
      using Cons.prems(2)[of "[]" a xs p] p(1) ma by simp
    from inlb1 classifyPass_bound[of mm hl xs ?S1] have "match_id p \<in> ?S1 \<union> m_id ` set xs"
      by blast
    with notin have "match_id p \<in> ?S1" by auto
    with classifyLB_bound[of mm hl S0 "m_id a"] notin have "match_id p \<in> S0" by auto
    moreover have "mm (m_id a) = Some a" using Cons.prems(1) by simp
    ultimately have "m_id a \<in> ?S1"
      using p ma by (intro classifyLB_adds[where m=a and p=p]) auto
    with classifyPass_mono[of ?S1 mm hl xs] have "m_id a \<in> classifyPass mm hl xs ?S1" by blast
    with ma show ?thesis by (simp only: classifyPass_Cons)
  qed
qed

lemma classifyPass_fixed:
  assumes "\<forall>m\<in>set xs. snd (classifyLB mm hl S (m_id m)) = S"
  shows "classifyPass mm hl xs S = S"
  using assms by (induction xs) (simp_all add: classifyPass_def)

lemma sorted_order:
  assumes ok: "cache_ok (build_matchMap ms) c" and dom: "\<forall>m\<in>set ms. map_of c (m_id m) \<noteq> None"
    and d: "distinct (map m_id ms)"
    and split: "sortedByDepth c ms = ys @ m # zs" and p: "p \<in> set (previous_matches m)"
  shows "match_id p \<notin> m_id ` set (m # zs)"
proof
  assume "match_id p \<in> m_id ` set (m # zs)"
  then obtain m' where m': "m' \<in> set (m # zs)" "m_id m' = match_id p"
    by (metis imageE)
  have "sorted (map (\<lambda>m. depth_of c (m_id m)) (ys @ m # zs))"
    using split[symmetric] by (simp add: sortedByDepth_def)
  then have "depth_of c (m_id m) \<le> depth_of c (m_id m')"
    using m'(1) by (auto simp: sorted_append)
  moreover have "m \<in> set ms"
  proof -
    have "m \<in> set (sortedByDepth c ms)" using split by simp
    then show ?thesis by (simp add: sortedByDepth_def)
  qed
  then have "depth_of c (match_id p) < depth_of c (m_id m)"
    using ok dom d p by (intro cache_depth_less[where mm="build_matchMap ms" and m=m])
      (auto simp: build_matchMap_distinct)
  ultimately show False using m'(2) by simp
qed

text \<open>
  C2. With \<open>LB\<close> the set \<open>isLBMatch\<close> that \<open>parseBracket\<close> computes: every match
  with a loser-type reference is in \<open>LB\<close>; every match with a winner-type reference to
  a match in \<open>LB\<close> is in \<open>LB\<close>; and the pass over the matches in ascending depth order
  has converged: running it once more from \<open>LB\<close> changes nothing.
\<close>

theorem lower_bracket_propagation:
  assumes ne: "ms \<noteq> []" and d: "distinct (map m_id ms)" and r: "ranked r ms"
  shows "\<exists>c. computeDepths (build_matchMap ms) ms = Some c \<and>
     (\<forall>m\<in>set ms. (\<exists>p\<in>set (previous_matches m). ref_type p = loser)
         \<longrightarrow> m_id m \<in> computeIsLBMatch c ms) \<and>
     (\<forall>m\<in>set ms. \<forall>p\<in>set (previous_matches m).
         ref_type p = winner \<and> match_id p \<in> computeIsLBMatch c ms
         \<longrightarrow> m_id m \<in> computeIsLBMatch c ms) \<and>
     classifyPass (build_matchMap ms) (hasLoserIncoming ms) (sortedByDepth c ms)
         (computeIsLBMatch c ms) = computeIsLBMatch c ms"
proof -
  let ?mm = "build_matchMap ms" and ?hl = "hasLoserIncoming ms"
  from computeDepths_ok[OF ranked_wf_rank[OF r], of ms]
  obtain c where c: "computeDepths ?mm ms = Some c"
    and ok: "cache_ok ?mm c" and dom: "\<forall>m\<in>set ms. map_of c (m_id m) \<noteq> None"
    by blast
  let ?xs = "sortedByDepth c ms"
  let ?LB = "computeIsLBMatch c ms"
  have LB: "?LB = classifyPass ?mm ?hl ?xs (seedLB ?hl ?xs)"
    by (simp add: computeIsLBMatch_def Let_def)
  have set_xs: "set ?xs = set ms" by (simp add: sortedByDepth_def)
  have mm: "\<forall>m\<in>set ?xs. ?mm (m_id m) = Some m"
    using d by (simp add: set_xs build_matchMap_distinct)
  have hl_sub: "?hl \<subseteq> ?LB"
  proof -
    have "?hl \<subseteq> m_id ` set ms" by (auto simp: hasLoserIncoming_eq)
    then have "seedLB ?hl ?xs = ?hl" by (auto simp: seedLB_eq set_xs)
    with classifyPass_mono[of "seedLB ?hl ?xs" ?mm ?hl ?xs] show ?thesis by (simp add: LB)
  qed
  have one: "m_id m \<in> ?LB"
    if "m \<in> set ms" "\<exists>p\<in>set (previous_matches m). ref_type p = loser" for m
  proof -
    from that have "m_id m \<in> ?hl" by (auto simp: hasLoserIncoming_eq)
    with hl_sub show ?thesis by blast
  qed
  have two: "m_id m \<in> ?LB"
    if "m \<in> set ms" "p \<in> set (previous_matches m)" "ref_type p = winner" "match_id p \<in> ?LB"
    for m p
    unfolding LB
  proof (rule classifyPass_closed[OF mm _ _ that(2,3)])
    show "m \<in> set ?xs" using that(1) by (simp add: set_xs)
    show "match_id p \<in> classifyPass ?mm ?hl ?xs (seedLB ?hl ?xs)" using that(4) by (simp only: LB)
    show "match_id p \<notin> m_id ` set (m # zs)"
      if "?xs = ys @ m # zs" "p \<in> set (previous_matches m)" for ys m zs p
      using ok dom d that by (rule sorted_order)
  qed
  have three: "classifyPass ?mm ?hl ?xs ?LB = ?LB"
  proof (rule classifyPass_fixed, rule ballI)
    fix m assume "m \<in> set ?xs"
    then have m: "m \<in> set ms" by (simp add: set_xs)
    show "snd (classifyLB ?mm ?hl ?LB (m_id m)) = ?LB"
    proof (cases "m_id m \<in> ?LB")
      case True
      then show ?thesis by (simp add: classifyLB_def)
    next
      case False
      have "\<not> list_ex (\<lambda>prev. ref_type prev = winner \<and> match_id prev \<in> ?LB) (previous_matches m)"
        using two[OF m] False by (auto simp: list_ex_iff)
      moreover have "m_id m \<notin> ?hl" using False hl_sub by blast
      moreover have "?mm (m_id m) = Some m" using d m by (rule build_matchMap_distinct)
      ultimately show ?thesis using False by (simp add: classifyLB_def)
    qed
  qed
  from c one two three show ?thesis by blast
qed

theorem lower_bracket_propagation_witness:
  "double_elim_bracket \<noteq> [] \<and> distinct (map m_id double_elim_bracket) \<and>
   ranked nat double_elim_bracket \<and>
   (\<exists>c. computeDepths (build_matchMap double_elim_bracket) double_elim_bracket = Some c \<and>
     (\<forall>m\<in>set double_elim_bracket. (\<exists>p\<in>set (previous_matches m). ref_type p = loser)
         \<longrightarrow> m_id m \<in> computeIsLBMatch c double_elim_bracket) \<and>
     (\<forall>m\<in>set double_elim_bracket. \<forall>p\<in>set (previous_matches m).
         ref_type p = winner \<and> match_id p \<in> computeIsLBMatch c double_elim_bracket
         \<longrightarrow> m_id m \<in> computeIsLBMatch c double_elim_bracket) \<and>
     classifyPass (build_matchMap double_elim_bracket) (hasLoserIncoming double_elim_bracket)
         (sortedByDepth c double_elim_bracket)
         (computeIsLBMatch c double_elim_bracket) = computeIsLBMatch c double_elim_bracket)"
proof -
  have ne: "double_elim_bracket \<noteq> []" by (simp add: double_elim_bracket_def)
  have d: "distinct (map m_id double_elim_bracket)"
    by (simp add: double_elim_bracket_def bmatch_def)
  have r: "ranked nat double_elim_bracket"
    by (simp add: ranked_def double_elim_bracket_def bmatch_def)
  from lower_bracket_propagation[OF ne d r] ne d r show ?thesis by blast
qed

subsection \<open>The single-elimination scenario\<close>

lemma no_loser_LB_empty:
  assumes "\<forall>m\<in>set ms. \<forall>p\<in>set (previous_matches m). ref_type p = winner"
  shows "computeIsLBMatch c ms = {}"
proof -
  have hl: "hasLoserIncoming ms = {}"
    using assms by (auto simp: hasLoserIncoming_eq)
  have "classifyPass (build_matchMap ms) {} (sortedByDepth c ms) {} = {}"
    by (rule classifyPass_fixed) (simp add: classifyLB_def list_ex_iff split: option.split)
  then show ?thesis
    by (simp add: computeIsLBMatch_def Let_def hl seedLB_eq)
qed

lemma se_depths:
  assumes d: "distinct [q1, q2, q3, q4, s1, s2, f]"
  obtains c where "computeDepths (build_matchMap (se_bracket q1 q2 q3 q4 s1 s2 f))
                     (se_bracket q1 q2 q3 q4 s1 s2 f) = Some c"
    and "depth_of c q1 = 0" "depth_of c q2 = 0" "depth_of c q3 = 0" "depth_of c q4 = 0"
    and "depth_of c s1 = 1" "depth_of c s2 = 1" "depth_of c f = 2"
    and "math_max (map snd c) = 2"
proof -
  let ?ms = "se_bracket q1 q2 q3 q4 s1 s2 f"
  let ?mm = "build_matchMap ?ms"
  define r :: "int \<Rightarrow> nat" where "r i = (if i = f then 2 else if i = s1 \<or> i = s2 then 1 else 0)" for i
  have ids: "map m_id ?ms = [q1, q2, q3, q4, s1, s2, f]" by (simp add: se_bracket_def bmatch_def)
  have ne: "?ms \<noteq> []" by (simp add: se_bracket_def)
  have dm: "distinct (map m_id ?ms)" using d by (simp only: ids)
  have rk: "ranked r ?ms" using d by (simp add: ranked_def se_bracket_def bmatch_def r_def)
  from computeDepths_ok[OF ranked_wf_rank[OF rk], of ?ms]
  obtain c where c: "computeDepths ?mm ?ms = Some c"
    and ok: "cache_ok ?mm c" and dom: "\<forall>m\<in>set ?ms. map_of c (m_id m) \<noteq> None"
    by blast
  have mm: "?mm (m_id m) = Some m" if "m \<in> set ?ms" for m
    using dm that by (rule build_matchMap_distinct)
  have root: "depth_of c i = 0" if "bmatch i n [] \<in> set ?ms" for i n
    using cache_depth_root[OF ok mm[OF that]] by (simp add: bmatch_def)
  have dq: "depth_of c q1 = 0" "depth_of c q2 = 0" "depth_of c q3 = 0" "depth_of c q4 = 0"
    by (rule root[of _ "''QF1''"], simp add: se_bracket_def)
       (rule root[of _ "''QF2''"], simp add: se_bracket_def,
        rule root[of _ "''QF3''"], simp add: se_bracket_def,
        rule root[of _ "''QF4''"], simp add: se_bracket_def)
  have step: "depth_of c i = Suc (max (depth_of c a) (depth_of c b))"
    if "bmatch i n [(winner, a), (winner, b)] \<in> set ?ms" for i n a b
  proof -
    let ?m = "bmatch i n [(winner, a), (winner, b)]"
    have "map_of c (m_id ?m) \<noteq> None" using dom that by blast
    from cache_depth_Suc[OF ok mm[OF that] this] show ?thesis
      by (simp add: bmatch_def max.commute)
  qed
  have ds1: "depth_of c s1 = 1"
    using step[of s1 "''SF1''" q1 q2] dq by (simp add: se_bracket_def)
  have ds2: "depth_of c s2 = 1"
    using step[of s2 "''SF2''" q3 q4] dq by (simp add: se_bracket_def)
  have df: "depth_of c f = 2"
    using step[of f "''F''" s1 s2] ds1 ds2 by (simp add: se_bracket_def)
  have "(\<lambda>m. depth_of c (m_id m)) ` set ?ms = depth_of c ` set (map m_id ?ms)"
    by (simp add: image_image)
  also have "\<dots> = {0, 1, 2}"
    unfolding ids using dq ds1 ds2 df by auto
  finally have "Max ((\<lambda>m. depth_of c (m_id m)) ` set ?ms) = 2" by simp
  with cache_max[OF ok dom build_matchMap_Some ne] have mx: "math_max (map snd c) = 2" by simp
  from c dq ds1 ds2 df mx show thesis by (rule that)
qed


text \<open>
  The parse of a single-elimination bracket of four quarterfinals, two semifinals and
  one final with pairwise distinct ids, computed step by step.
\<close>

lemma se_bracket_parse:
  assumes d: "distinct [q1, q2, q3, q4, s1, s2, f]"
  shows "parseBracket (se_bracket q1 q2 q3 q4 s1 s2 f) =
     Some (Some \<lparr>upperBracket =
                   [\<lparr>label = ''Semifinal'',
                     matches = [bmatch q1 ''QF1'' [], bmatch q2 ''QF2'' [], bmatch q3 ''QF3'' [],
                                bmatch q4 ''QF4'' []]\<rparr>,
                    \<lparr>label = ''Final'',
                     matches = [bmatch s1 ''SF1'' [(winner, q1), (winner, q2)],
                                bmatch s2 ''SF2'' [(winner, q3), (winner, q4)]]\<rparr>],
                 lowerBracket = [],
                 grandFinal = Some (bmatch f ''F'' [(winner, s1), (winner, s2)])\<rparr>)"
proof -
  let ?ms = "se_bracket q1 q2 q3 q4 s1 s2 f"
  let ?F = "bmatch f ''F'' [(winner, s1), (winner, s2)]"
  let ?rest = "[bmatch q1 ''QF1'' [], bmatch q2 ''QF2'' [], bmatch q3 ''QF3'' [],
      bmatch q4 ''QF4'' [], bmatch s1 ''SF1'' [(winner, q1), (winner, q2)],
      bmatch s2 ''SF2'' [(winner, q3), (winner, q4)]]"
  from d obtain c where c: "computeDepths (build_matchMap ?ms) ?ms = Some c"
    and dq: "depth_of c q1 = 0" "depth_of c q2 = 0" "depth_of c q3 = 0" "depth_of c q4 = 0"
    and ds: "depth_of c s1 = 1" "depth_of c s2 = 1" and df: "depth_of c f = 2"
    and mx: "math_max (map snd c) = 2"
    by (rule se_depths)
  have ne: "?ms \<noteq> []" by (simp add: se_bracket_def)
  have lb: "computeIsLBMatch c ?ms = {}"
    by (rule no_loser_LB_empty) (simp add: se_bracket_def bmatch_def)
  have fne: "q1 \<noteq> f" "q2 \<noteq> f" "q3 \<noteq> f" "q4 \<noteq> f" "s1 \<noteq> f" "s2 \<noteq> f"
    using d by simp_all
  have gf: "findGrandFinal c {} ?ms = Some ?F"
    by (simp add: findGrandFinal_def mx isConvergence_def se_bracket_def bmatch_def dq ds df)
  have ub: "ubMatches {} (Some ?F) ?ms = ?rest"
    by (simp add: ubMatches_def notGrandFinal_def se_bracket_def bmatch_def fne)
  have lbm: "lbMatches {} (Some ?F) ?ms = []"
    by (simp add: lbMatches_def)
  have lower: "buildRounds c [] True = []"
    by (simp add: buildRounds_def groupByRounds_def)
  have grp: "groupByRounds c ?rest =
      [(0, [bmatch q1 ''QF1'' [], bmatch q2 ''QF2'' [], bmatch q3 ''QF3'' [], bmatch q4 ''QF4'' []]),
       (1, [bmatch s1 ''SF1'' [(winner, q1), (winner, q2)],
            bmatch s2 ''SF2'' [(winner, q3), (winner, q4)]])]"
    by (simp add: groupByRounds_def bmatch_def dq ds)
  have upper: "buildRounds c ?rest False =
      [\<lparr>label = ''UB Semifinal'',
        matches = [bmatch q1 ''QF1'' [], bmatch q2 ''QF2'' [], bmatch q3 ''QF3'' [],
                   bmatch q4 ''QF4'' []]\<rparr>,
       \<lparr>label = ''UB Final'',
        matches = [bmatch s1 ''SF1'' [(winner, q1), (winner, q2)],
                   bmatch s2 ''SF2'' [(winner, q3), (winner, q4)]]\<rparr>]"
    unfolding buildRounds_def grp by (simp add: roundLabel_def)
  have strip: "stripUB [\<lparr>label = ''UB Semifinal'', matches = a\<rparr>, \<lparr>label = ''UB Final'', matches = b\<rparr>]
      = [\<lparr>label = ''Semifinal'', matches = a\<rparr>, \<lparr>label = ''Final'', matches = b\<rparr>]" for a b
    by (simp add: stripUB_def)
  show ?thesis
    by (simp only: parseBracket_def Let_def c ne if_False option.case lb gf ub lbm lower upper
        strip if_True refl)
qed

text \<open>
  C4, as amended. On a single-elimination bracket of four quarterfinals, two semifinals
  and one final (all references of winner type, ids pairwise distinct), the final is the
  only match at the maximum depth, so it is taken as the grand final and left out of the
  upper bracket. The upper bracket has two rounds, the four quarterfinals and then the
  two semifinals, and the lower bracket is empty.
\<close>

theorem single_elim_parse:
  assumes d: "distinct [q1, q2, q3, q4, s1, s2, f]"
  shows "\<exists>pb. parseBracket (se_bracket q1 q2 q3 q4 s1 s2 f) = Some (Some pb) \<and>
           grandFinal pb = Some (bmatch f ''F'' [(winner, s1), (winner, s2)]) \<and>
           map matches (upperBracket pb) =
             [[bmatch q1 ''QF1'' [], bmatch q2 ''QF2'' [], bmatch q3 ''QF3'' [],
               bmatch q4 ''QF4'' []],
              [bmatch s1 ''SF1'' [(winner, q1), (winner, q2)],
               bmatch s2 ''SF2'' [(winner, q3), (winner, q4)]]] \<and>
           lowerBracket pb = []"
  by (simp add: se_bracket_parse[OF d])

theorem single_elim_parse_witness:
  "distinct [101, 102, 103, 104, 201, 202, 301 :: int] \<and>
   (\<exists>pb. parseBracket single_elim_bracket = Some (Some pb) \<and>
         grandFinal pb = Some (bmatch 301 ''F'' [(winner, 201), (winner, 202)]) \<and>
         map matches (upperBracket pb) =
           [[bmatch 101 ''QF1'' [], bmatch 102 ''QF2'' [], bmatch 103 ''QF3'' [],
             bmatch 104 ''QF4'' []],
            [bmatch 201 ''SF1'' [(winner, 101), (winner, 102)],
             bmatch 202 ''SF2'' [(winner, 103), (winner, 104)]]] \<and>
         lowerBracket pb = [])"
proof -
  have d: "distinct [101, 102, 103, 104, 201, 202, 301 :: int]" by simp
  note th = single_elim_parse[OF d, folded single_elim_bracket_def]
  show ?thesis
    apply (intro conjI)
     apply (rule d)
    apply (rule th)
    done
qed

text \<open>
  C4, as stated, fails: the parse of that bracket does not have three upper-bracket
  rounds.
\<close>

theorem single_elim_not_three_rounds:
  "\<not> (\<exists>pb. parseBracket single_elim_bracket = Some (Some pb) \<and> length (upperBracket pb) = 3)"
proof -
  have "map_option (map_option (\<lambda>pb. length (upperBracket pb))) (parseBracket single_elim_bracket)
          = Some (Some 2)"
    by code_simp
  then show ?thesis by auto
qed

subsection \<open>Grand final\<close>


lemma chain_depth_unique:
  assumes wf: "wf_rank mm \<mu>" and d: "chain_depth mm d" and d': "chain_depth mm d'"
  shows "d i = d' i"
proof (induction "\<mu> i" arbitrary: i rule: less_induct)
  case less
  note di = d[unfolded chain_depth_def, rule_format, of i]
  note di' = d'[unfolded chain_depth_def, rule_format, of i]
  show ?case
  proof (cases "mm i")
    case None
    with di di' show ?thesis by simp
  next
    case (Some m)
    have "(\<lambda>p. d (match_id p)) ` set (previous_matches m)
        = (\<lambda>p. d' (match_id p)) ` set (previous_matches m)"
    proof (rule image_cong[OF refl])
      fix p assume "p \<in> set (previous_matches m)"
      with wf Some have "\<mu> (match_id p) < \<mu> i" unfolding wf_rank_def by blast
      then show "d (match_id p) = d' (match_id p)" by (rule less)
    qed
    with di di' Some show ?thesis by simp
  qed
qed




subsection \<open>Dangling references\<close>

lemma isLB_subset_ids: "computeIsLBMatch c ms \<subseteq> m_id ` set ms"
proof -
  have "computeIsLBMatch c ms \<subseteq> seedLB (hasLoserIncoming ms) (sortedByDepth c ms)
          \<union> m_id ` set (sortedByDepth c ms)"
    unfolding computeIsLBMatch_def Let_def by (rule classifyPass_bound)
  then show ?thesis by (auto simp: seedLB_eq sortedByDepth_def)
qed

text \<open>
  C10. On a non-empty acyclic input with distinct ids, \<open>parseBracket\<close> returns a bracket
  also when references point to ids that are not in the list. Such an id is cached with
  depth 0 and is never in \<open>isLBMatch\<close>; the depth of a match with references is one more
  than the maximum over its references, a dangling one contributing 0. In the
  grand-final check a dangling reference is a reference to a match that is not
  lower-bracket: a match with one is a convergence as soon as it is at the maximum depth,
  has two references and one of them is lower-bracket, and when there is such a match
  the grand final is a convergence.
\<close>

theorem dangling_references:
  assumes ne: "ms \<noteq> []" and d: "distinct (map m_id ms)" and r: "ranked r ms"
  shows "\<exists>c pb. computeDepths (build_matchMap ms) ms = Some c \<and>
           parseBracket ms = Some (Some pb) \<and>
           (\<forall>m\<in>set ms. \<forall>p\<in>set (previous_matches m).
              match_id p \<notin> m_id ` set ms \<longrightarrow>
                map_of c (match_id p) = Some 0 \<and> match_id p \<notin> computeIsLBMatch c ms) \<and>
           (\<forall>m\<in>set ms. previous_matches m \<noteq> [] \<longrightarrow>
              depth_of c (m_id m) =
                1 + Max ((\<lambda>p. if match_id p \<in> m_id ` set ms then depth_of c (match_id p) else 0)
                           ` set (previous_matches m))) \<and>
           (\<forall>m\<in>set ms. (\<exists>p\<in>set (previous_matches m). match_id p \<notin> m_id ` set ms) \<longrightarrow>
              (isConvergence c (computeIsLBMatch c ms) (math_max (map snd c)) m \<longleftrightarrow>
                 depth_of c (m_id m) = math_max (map snd c) \<and>
                 2 \<le> length (previous_matches m) \<and>
                 (\<exists>q\<in>set (previous_matches m). match_id q \<in> computeIsLBMatch c ms))) \<and>
           ((\<exists>m\<in>set ms. (\<exists>p\<in>set (previous_matches m). match_id p \<notin> m_id ` set ms) \<and>
                depth_of c (m_id m) = math_max (map snd c) \<and>
                2 \<le> length (previous_matches m) \<and>
                (\<exists>q\<in>set (previous_matches m). match_id q \<in> computeIsLBMatch c ms)) \<longrightarrow>
              (\<exists>g\<in>set ms. grandFinal pb = Some g \<and>
                 isConvergence c (computeIsLBMatch c ms) (math_max (map snd c)) g))"
proof -
  let ?mm = "build_matchMap ms"
  from ne r obtain c pb where c: "computeDepths ?mm ms = Some c"
    and ok: "cache_ok ?mm c" and dom: "\<forall>m\<in>set ms. map_of c (m_id m) \<noteq> None"
    and pb: "parseBracket ms = Some (Some pb)"
    and gf: "grandFinal pb = findGrandFinal c (computeIsLBMatch c ms) ms"
    by (rule parseBracket_returns)
  let ?lb = "computeIsLBMatch c ms"
  let ?mx = "math_max (map snd c)"
  have none: "?mm i = None" if "i \<notin> m_id ` set ms" for i
    using that build_matchMap_dom[of ms] by blast
  have zero: "depth_of c i = 0" if "i \<notin> m_id ` set ms" for i
    using ok none[OF that] by (rule cache_depth_dangling)
  have notlb: "i \<notin> ?lb" if "i \<notin> m_id ` set ms" for i
    using that isLB_subset_ids[of c ms] by blast
  have a: "map_of c (match_id p) = Some 0 \<and> match_id p \<notin> ?lb"
    if m: "m \<in> set ms" and p: "p \<in> set (previous_matches m)"
      and dang: "match_id p \<notin> m_id ` set ms" for m p
  proof -
    have mm: "?mm (m_id m) = Some m" using d m by (rule build_matchMap_distinct)
    from dom m obtain dm where dm: "map_of c (m_id m) = Some dm" by auto
    from p have "previous_matches m \<noteq> []" by auto
    with cache_entry[OF ok dm] mm p have "map_of c (match_id p) \<noteq> None"
      by (simp add: entry_ok_def)
    then obtain dp where dp: "map_of c (match_id p) = Some dp" by auto
    with zero[OF dang] have "dp = 0" by (simp add: depth_of_def)
    with dp notlb[OF dang] show ?thesis by simp
  qed
  have b: "depth_of c (m_id m) =
      1 + Max ((\<lambda>p. if match_id p \<in> m_id ` set ms then depth_of c (match_id p) else 0)
                 ` set (previous_matches m))"
    if m: "m \<in> set ms" and nonempty: "previous_matches m \<noteq> []" for m
  proof -
    have mm: "?mm (m_id m) = Some m" using d m by (rule build_matchMap_distinct)
    have eq: "(\<lambda>p. if match_id p \<in> m_id ` set ms then depth_of c (match_id p) else 0)
                ` set (previous_matches m)
            = (\<lambda>p. depth_of c (match_id p)) ` set (previous_matches m)"
      by (rule image_cong) (simp_all add: zero)
    have "map_of c (m_id m) \<noteq> None" using dom m by blast
    from cache_depth_Suc[OF ok mm this nonempty] show ?thesis
      by (simp only: eq plus_1_eq_Suc)
  qed
  have cv: "isConvergence c ?lb ?mx m \<longleftrightarrow>
      depth_of c (m_id m) = ?mx \<and> 2 \<le> length (previous_matches m) \<and>
      (\<exists>q\<in>set (previous_matches m). match_id q \<in> ?lb)"
    if dang: "\<exists>p\<in>set (previous_matches m). match_id p \<notin> m_id ` set ms" for m
  proof -
    from dang obtain p where "p \<in> set (previous_matches m)" "match_id p \<notin> ?lb"
      using notlb by blast
    then have "list_ex (\<lambda>p. match_id p \<notin> ?lb) (previous_matches m)"
      unfolding list_ex_iff by blast
    then show ?thesis by (simp add: isConvergence_def list_ex_iff)
  qed
  have e: "\<exists>g\<in>set ms. grandFinal pb = Some g \<and> isConvergence c ?lb ?mx g"
    if ex: "\<exists>m\<in>set ms. (\<exists>p\<in>set (previous_matches m). match_id p \<notin> m_id ` set ms) \<and>
                depth_of c (m_id m) = ?mx \<and> 2 \<le> length (previous_matches m) \<and>
                (\<exists>q\<in>set (previous_matches m). match_id q \<in> ?lb)"
  proof -
    from ex obtain m where m: "m \<in> set ms"
      and dang: "\<exists>p\<in>set (previous_matches m). match_id p \<notin> m_id ` set ms"
      and rest: "depth_of c (m_id m) = ?mx \<and> 2 \<le> length (previous_matches m) \<and>
                (\<exists>q\<in>set (previous_matches m). match_id q \<in> ?lb)"
      by blast
    from cv[OF dang] rest have "isConvergence c ?lb ?mx m" by (rule iffD2)
    with m have "find (isConvergence c ?lb ?mx) ms \<noteq> None"
      unfolding find_None_iff by blast
    then obtain g where fg: "find (isConvergence c ?lb ?mx) ms = Some g" by auto
    then have g: "g \<in> set ms" "isConvergence c ?lb ?mx g"
      by (auto simp: find_Some_iff)
    have "findGrandFinal c ?lb ms = Some g"
      by (simp add: findGrandFinal_def Let_def fg)
    with gf g show ?thesis by auto
  qed
  show ?thesis
  proof (intro exI conjI)
    show "computeDepths ?mm ms = Some c" by (rule c)
    show "parseBracket ms = Some (Some pb)" by (rule pb)
    show "\<forall>m\<in>set ms. \<forall>p\<in>set (previous_matches m).
            match_id p \<notin> m_id ` set ms \<longrightarrow>
              map_of c (match_id p) = Some 0 \<and> match_id p \<notin> ?lb"
      using a by blast
    show "\<forall>m\<in>set ms. previous_matches m \<noteq> [] \<longrightarrow>
            depth_of c (m_id m) =
              1 + Max ((\<lambda>p. if match_id p \<in> m_id ` set ms then depth_of c (match_id p) else 0)
                         ` set (previous_matches m))"
      using b by blast
    show "\<forall>m\<in>set ms. (\<exists>p\<in>set (previous_matches m). match_id p \<notin> m_id ` set ms) \<longrightarrow>
            (isConvergence c ?lb ?mx m \<longleftrightarrow>
               depth_of c (m_id m) = ?mx \<and> 2 \<le> length (previous_matches m) \<and>
               (\<exists>q\<in>set (previous_matches m). match_id q \<in> ?lb))"
      using cv by blast
    show "(\<exists>m\<in>set ms. (\<exists>p\<in>set (previous_matches m). match_id p \<notin> m_id ` set ms) \<and>
              depth_of c (m_id m) = ?mx \<and> 2 \<le> length (previous_matches m) \<and>
              (\<exists>q\<in>set (previous_matches m). match_id q \<in> ?lb)) \<longrightarrow>
          (\<exists>g\<in>set ms. grandFinal pb = Some g \<and> isConvergence c ?lb ?mx g)"
      using e by blast
  qed
qed

theorem dangling_references_witness:
  "partial_bracket \<noteq> [] \<and> distinct (map m_id partial_bracket) \<and> ranked nat partial_bracket \<and>
   (\<exists>c pb. computeDepths (build_matchMap partial_bracket) partial_bracket = Some c \<and>
             parseBracket partial_bracket = Some (Some pb) \<and>
             (\<forall>m\<in>set partial_bracket. \<forall>p\<in>set (previous_matches m).
                match_id p \<notin> m_id ` set partial_bracket \<longrightarrow>
                  map_of c (match_id p) = Some 0 \<and> match_id p \<notin> computeIsLBMatch c partial_bracket) \<and>
             (\<forall>m\<in>set partial_bracket. previous_matches m \<noteq> [] \<longrightarrow>
                depth_of c (m_id m) =
                  1 + Max ((\<lambda>p. if match_id p \<in> m_id ` set partial_bracket then depth_of c (match_id p) else 0)
                             ` set (previous_matches m))) \<and>
             (\<forall>m\<in>set partial_bracket. (\<exists>p\<in>set (previous_matches m). match_id p \<notin> m_id ` set partial_bracket) \<longrightarrow>
                (isConvergence c (computeIsLBMatch c partial_bracket) (math_max (map snd c)) m \<longleftrightarrow>
                   depth_of c (m_id m) = math_max (map snd c) \<and>
                   2 \<le> length (previous_matches m) \<and>
                   (\<exists>q\<in>set (previous_matches m). match_id q \<in> computeIsLBMatch c partial_bracket))) \<and>
             ((\<exists>m\<in>set partial_bracket. (\<exists>p\<in>set (previous_matches m). match_id p \<notin> m_id ` set partial_bracket) \<and>
                  depth_of c (m_id m) = math_max (map snd c) \<and>
                  2 \<le> length (previous_matches m) \<and>
                  (\<exists>q\<in>set (previous_matches m). match_id q \<in> computeIsLBMatch c partial_bracket)) \<longrightarrow>
                (\<exists>g\<in>set partial_bracket. grandFinal pb = Some g \<and>
                   isConvergence c (computeIsLBMatch c partial_bracket) (math_max (map snd c)) g))) \<and>
   map_option (map_option grandFinal) (parseBracket partial_bracket) =
     Some (Some (Some (bmatch 6 ''GF'' [(winner, 3), (winner, 5)])))"
proof -
  have ne: "partial_bracket \<noteq> []" by (simp add: partial_bracket_def)
  have d: "distinct (map m_id partial_bracket)"
    by (simp add: partial_bracket_def bmatch_def)
  have r: "ranked nat partial_bracket"
    by (simp add: ranked_def partial_bracket_def bmatch_def)
  have gf: "map_option (map_option grandFinal) (parseBracket partial_bracket) =
     Some (Some (Some (bmatch 6 ''GF'' [(winner, 3), (winner, 5)])))"
    by code_simp
  note th = dangling_references[OF ne d r]
  show ?thesis
    apply (intro conjI)
        apply (rule ne)
       apply (rule d)
      apply (rule r)
     apply (rule th)
    apply (rule gf)
    done
qed

section \<open>Theorems about the statistics\<close>

lemma faceit_emitted:
  assumes "normalizeFaceitStats pf st n1 n2 = Some out" "a \<in> emitted out"
  obtains p where "a = normalizePlayer pf p"
proof -
  from assms(1) have m: "maps out = map (\<lambda>(i, rnd). faceit_map pf i rnd) (enumerate 0 (rounds st))"
    and cols: "availableColumns out = faceit_columns"
    by (auto simp: normalizeFaceitStats_def split: if_splits)
  from assms(2) obtain mp where mp: "mp \<in> set (maps out)"
    "a \<in> set (team1Players mp) \<union> set (team2Players mp)"
    by (auto simp: emitted_def)
  from mp(1) m obtain i rnd where "mp = faceit_map pf i rnd" by auto
  with mp(2) obtain t where "a \<in> set (team_players pf t)"
    by (auto simp: faceit_map_def Let_def)
  then obtain p where "a = normalizePlayer pf p"
    by (auto simp: team_players_def split: option.splits)
  then show thesis by (rule that)
qed

lemma ps_emitted:
  assumes "normalizePandaScoreStats pstats games n1 n2 t1 t2 i1 i2 names = Some out"
    "a \<in> emitted out"
  obtains ps where "a = normalizePS names ps" "ps \<in> set pstats"
proof -
  from assms(1) have m: "maps out = map (\<lambda>(i, game). ps_map pstats names t1 t2 i game)
       (enumerate 0 (filter (\<lambda>g. finished g \<or> status g = ''running'') (sort_key position games)))"
    by (auto simp: normalizePandaScoreStats_def Let_def split: if_splits)
  from assms(2) obtain mp where mp: "mp \<in> set (maps out)"
    "a \<in> set (team1Players mp) \<union> set (team2Players mp)"
    by (auto simp: emitted_def)
  from mp(1) m obtain i game where "mp = ps_map pstats names t1 t2 i game" by auto
  with mp(2) obtain ps where "a = normalizePS names ps" "ps \<in> set pstats"
    by (auto simp: ps_map_def Let_def)
  then show thesis by (rule that)
qed

lemma kd_inv_normalizePlayer: "kd_inv (normalizePlayer pf p)"
  by (simp add: kd_inv_def normalizePlayer_def Let_def)

lemma kd_inv_normalizePS: "kd_inv (normalizePS names ps)"
  by (simp add: kd_inv_def normalizePS_def Let_def)

lemma kd_inv_mergeStat: "kd_inv (mergeStat e p)"
  by (simp add: kd_inv_def mergeStat_def Let_def)

lemma aggregateStep_lookup:
  "map_of (aggregateStep p al) pid =
     (if playerId p = pid
      then Some (case map_of al pid of None \<Rightarrow> p | Some e \<Rightarrow> mergeStat e p)
      else map_of al pid)"
  by (auto simp: aggregateStep_def update_conv' split: option.split)

lemma aggregate_fold_lookup:
  "map_of (fold aggregateStep ps al) pid =
     (case map_of al pid of
        None \<Rightarrow> (case filter (\<lambda>p. playerId p = pid) ps of
                   [] \<Rightarrow> None
                 | r # rs \<Rightarrow> Some (foldl mergeStat r rs))
      | Some e \<Rightarrow> Some (foldl mergeStat e (filter (\<lambda>p. playerId p = pid) ps)))"
proof (induction ps arbitrary: al)
  case Nil
  show ?case by (simp split: option.split)
next
  case (Cons p ps)
  show ?case
    by (simp add: Cons.IH aggregateStep_lookup split: option.split)
qed

lemma aggregateStep_distinct:
  "distinct (map fst al) \<Longrightarrow> distinct (map fst (aggregateStep p al))"
  by (simp add: aggregateStep_def distinct_update split: option.split)

lemma aggregate_fold_distinct:
  "distinct (map fst al) \<Longrightarrow> distinct (map fst (fold aggregateStep ps al))"
  by (induction ps arbitrary: al) (simp_all add: aggregateStep_distinct)

lemma fold_concat_map:
  "fold f (concat (map g xs)) s = fold (\<lambda>x. fold f (g x)) xs s"
  by (induction xs arbitrary: s) simp_all

lemma aggregatePlayerMap_alt:
  "aggregatePlayerMap ms teamKey = fold aggregateStep (concat (map teamKey ms)) []"
  unfolding aggregatePlayerMap_def by (simp add: fold_concat_map)

lemma aggregatePlayerMap_lookup:
  "map_of (aggregatePlayerMap ms teamKey) pid =
     (case playerRows ms teamKey pid of [] \<Rightarrow> None | r # rs \<Rightarrow> Some (foldl mergeStat r rs))"
  by (simp add: aggregatePlayerMap_alt aggregate_fold_lookup playerRows_def)

lemma aggregatePlayerMap_distinct: "distinct (map fst (aggregatePlayerMap ms teamKey))"
  by (simp add: aggregatePlayerMap_alt aggregate_fold_distinct)

lemma aggregatePlayerStats_mem:
  "a \<in> set (aggregatePlayerStats ms teamKey) \<longleftrightarrow>
     (\<exists>pid r rs. playerRows ms teamKey pid = r # rs \<and> a = foldl mergeStat r rs)"
proof -
  have "a \<in> set (aggregatePlayerStats ms teamKey)
        \<longleftrightarrow> (\<exists>pid. (pid, a) \<in> set (aggregatePlayerMap ms teamKey))"
    by (force simp: aggregatePlayerStats_def)
  also have "\<dots> \<longleftrightarrow> (\<exists>pid. map_of (aggregatePlayerMap ms teamKey) pid = Some a)"
    using aggregatePlayerMap_distinct[of ms teamKey] by simp
  finally have "a \<in> set (aggregatePlayerStats ms teamKey)
        \<longleftrightarrow> (\<exists>pid. map_of (aggregatePlayerMap ms teamKey) pid = Some a)" .
  moreover have "map_of (aggregatePlayerMap ms teamKey) pid = Some a
        \<longleftrightarrow> (\<exists>r rs. playerRows ms teamKey pid = r # rs \<and> a = foldl mergeStat r rs)" for pid
    by (cases "playerRows ms teamKey pid") (auto simp: aggregatePlayerMap_lookup)
  ultimately show ?thesis by simp
qed

lemma foldl_merge_snoc: "foldl mergeStat r (rs @ [x]) = mergeStat (foldl mergeStat r rs) x"
  by simp

lemma merge_kills: "kills (foldl mergeStat r rs) = (\<Sum>x\<leftarrow>r # rs. kills x)"
  by (induction rs rule: rev_induct) (simp_all add: mergeStat_def Let_def)

lemma merge_deaths: "deaths (foldl mergeStat r rs) = (\<Sum>x\<leftarrow>r # rs. deaths x)"
  by (induction rs rule: rev_induct) (simp_all add: mergeStat_def Let_def)

lemma merge_assists: "assists (foldl mergeStat r rs) = (\<Sum>x\<leftarrow>r # rs. assists x)"
  by (induction rs rule: rev_induct) (simp_all add: mergeStat_def Let_def)

lemma merge_playerId: "playerId (foldl mergeStat r rs) = playerId r"
  by (induction rs rule: rev_induct) (simp_all add: mergeStat_def Let_def)

lemma merge_kd:
  "rs \<noteq> [] \<Longrightarrow> kd_inv (foldl mergeStat r rs) \<and>
     kdRatio (foldl mergeStat r rs) =
       (if deaths (foldl mergeStat r rs) > 0
        then kills (foldl mergeStat r rs) / deaths (foldl mergeStat r rs)
        else kills (foldl mergeStat r rs))"
  by (cases rs rule: rev_cases) (simp_all add: kd_inv_def mergeStat_def Let_def)

lemma sum_all_None:
  "\<forall>x\<in>set xs. x = None \<Longrightarrow> (\<Sum>x\<leftarrow>xs. case x of None \<Rightarrow> 0 | Some v \<Rightarrow> v) = (0::real)"
  by (induction xs) simp_all

lemma opt_total_snoc: "opt_total (xs @ [x]) = sum_opt (opt_total xs) x"
  by (cases x) (auto simp: opt_total_def sum_opt_def sum_all_None)

lemma foldl_sum_opt: "foldl sum_opt x xs = opt_total (x # xs)"
proof (induction xs rule: rev_induct)
  case Nil
  show ?case by (cases x) (simp_all add: opt_total_def)
next
  case (snoc y ys)
  have "opt_total (x # ys @ [y]) = sum_opt (opt_total (x # ys)) y"
    using opt_total_snoc[of "x # ys" y] by simp
  with snoc show ?case by simp
qed

lemma merge_mvps: "mvps (foldl mergeStat r rs) = opt_total (map mvps (r # rs))"
proof -
  have "mvps (foldl mergeStat r rs) = foldl sum_opt (mvps r) (map mvps rs)"
    by (induction rs rule: rev_induct) (simp_all add: mergeStat_def Let_def)
  then show ?thesis by (simp add: foldl_sum_opt)
qed

lemma merge_tripleKills: "tripleKills (foldl mergeStat r rs) = opt_total (map tripleKills (r # rs))"
proof -
  have "tripleKills (foldl mergeStat r rs) = foldl sum_opt (tripleKills r) (map tripleKills rs)"
    by (induction rs rule: rev_induct) (simp_all add: mergeStat_def Let_def)
  then show ?thesis by (simp add: foldl_sum_opt)
qed

lemma merge_quadroKills: "quadroKills (foldl mergeStat r rs) = opt_total (map quadroKills (r # rs))"
proof -
  have "quadroKills (foldl mergeStat r rs) = foldl sum_opt (quadroKills r) (map quadroKills rs)"
    by (induction rs rule: rev_induct) (simp_all add: mergeStat_def Let_def)
  then show ?thesis by (simp add: foldl_sum_opt)
qed

lemma merge_pentaKills: "pentaKills (foldl mergeStat r rs) = opt_total (map pentaKills (r # rs))"
proof -
  have "pentaKills (foldl mergeStat r rs) = foldl sum_opt (pentaKills r) (map pentaKills rs)"
    by (induction rs rule: rev_induct) (simp_all add: mergeStat_def Let_def)
  then show ?thesis by (simp add: foldl_sum_opt)
qed

lemma merge_krRatio:
  "krRatio (foldl mergeStat r rs) = foldl avg_opt (krRatio r) (map krRatio rs)"
  by (induction rs rule: rev_induct) (simp_all add: mergeStat_def Let_def)

lemma merge_adr:
  "adr (foldl mergeStat r rs) = foldl avg_opt (adr r) (map adr rs)"
  by (induction rs rule: rev_induct) (simp_all add: mergeStat_def Let_def)

lemma merge_kast:
  "kast (foldl mergeStat r rs) = foldl avg_opt (kast r) (map kast rs)"
  by (induction rs rule: rev_induct) (simp_all add: mergeStat_def Let_def)

lemma merge_rating:
  "rating (foldl mergeStat r rs) = foldl avg_opt (rating r) (map rating rs)"
  by (induction rs rule: rev_induct) (simp_all add: mergeStat_def Let_def)

lemma merge_hs_None:
  "\<forall>x\<in>set (r # rs). hsPercent x = None \<Longrightarrow> hsPercent (foldl mergeStat r rs) = None"
  by (induction rs rule: rev_induct) (simp_all add: mergeStat_def Let_def)

lemma zero_kills_sum:
  fixes f :: "NormalizedPlayerStat \<Rightarrow> real"
  assumes "\<forall>x\<in>set xs. 0 \<le> kills x" "(\<Sum>x\<leftarrow>xs. kills x) = 0"
  shows "(\<Sum>x\<leftarrow>xs. kills x * f x) = 0"
proof -
  have "\<forall>y\<in>set (map kills xs). y = 0"
    using assms by (subst sum_list_nonneg_eq_0_iff[symmetric]) auto
  then have "\<forall>x\<in>set xs. kills x * f x = 0" by simp
  then show ?thesis by (induction xs) simp_all
qed

lemma merge_hs:
  assumes "\<forall>x\<in>set (r # rs). hsPercent x \<noteq> None \<and> 0 \<le> kills x"
  shows "\<exists>h. hsPercent (foldl mergeStat r rs) = Some h \<and>
             h * (\<Sum>x\<leftarrow>r # rs. kills x)
               = (\<Sum>x\<leftarrow>r # rs. kills x * (case hsPercent x of None \<Rightarrow> 0 | Some h \<Rightarrow> h))"
  using assms
proof (induction rs rule: rev_induct)
  case Nil
  then obtain h where "hsPercent r = Some h" by auto
  then show ?case by (simp add: mult.commute)
next
  case (snoc x rs)
  let ?e = "foldl mergeStat r rs"
  define K where "K = (\<Sum>y\<leftarrow>r # rs. kills y)"
  define S where "S = (\<Sum>y\<leftarrow>r # rs. kills y * (case hsPercent y of None \<Rightarrow> 0 | Some h \<Rightarrow> h))"
  from snoc.prems have pre: "\<forall>y\<in>set (r # rs). hsPercent y \<noteq> None \<and> 0 \<le> kills y" by simp
  from snoc.IH[OF pre] obtain h where h: "hsPercent ?e = Some h" and inv: "h * K = S"
    unfolding K_def S_def by blast
  from snoc.prems obtain ph where ph: "hsPercent x = Some ph" and kx: "0 \<le> kills x" by auto
  have Ke: "kills ?e = K" unfolding K_def by (rule merge_kills)
  have Knn: "0 \<le> K" unfolding K_def using pre by (intro sum_list_nonneg) auto
  define h' where "h' = (if K + kills x > 0
             then ((K * (h / 100) + kills x * (ph / 100)) / (K + kills x)) * 100 else 0)"
  have new: "hsPercent (foldl mergeStat r (rs @ [x])) = Some h'"
    by (simp add: mergeStat_def Let_def h ph Ke h'_def)
  have eq: "h' * (K + kills x) = S + kills x * ph"
  proof (cases "K + kills x > 0")
    case True
    then have "h' * (K + kills x) = h * K + kills x * ph"
      unfolding h'_def by (simp add: field_simps)
    with inv show ?thesis by simp
  next
    case False
    with Knn kx have z: "K = 0" "kills x = 0" by linarith+
    have "S = 0" unfolding S_def using pre z(1) unfolding K_def by (intro zero_kills_sum) auto
    with False z show ?thesis by (simp add: h'_def)
  qed
  have sumK: "(\<Sum>y\<leftarrow>r # rs @ [x]. kills y) = K + kills x" by (simp add: K_def)
  have sumS: "(\<Sum>y\<leftarrow>r # rs @ [x]. kills y * (case hsPercent y of None \<Rightarrow> 0 | Some h \<Rightarrow> h))
      = S + kills x * ph" by (simp add: S_def ph)
  from eq have "h' * (\<Sum>y\<leftarrow>r # rs @ [x]. kills y)
      = (\<Sum>y\<leftarrow>r # rs @ [x]. kills y * (case hsPercent y of None \<Rightarrow> 0 | Some h \<Rightarrow> h))"
    by (simp only: sumK sumS)
  with new show ?case by blast
qed

lemma merge_hs_weighted:
  assumes "\<forall>x\<in>set (r # rs). hsPercent x \<noteq> None \<and> 0 \<le> kills x"
    and "0 < (\<Sum>x\<leftarrow>r # rs. kills x)"
  shows "hsPercent (foldl mergeStat r rs) = Some (weighted_hs (r # rs))"
proof -
  from merge_hs[OF assms(1)] obtain h where h: "hsPercent (foldl mergeStat r rs) = Some h"
    and inv: "h * (\<Sum>x\<leftarrow>r # rs. kills x)
               = (\<Sum>x\<leftarrow>r # rs. kills x * (case hsPercent x of None \<Rightarrow> 0 | Some h \<Rightarrow> h))"
    by blast
  from inv assms(2) have "h = weighted_hs (r # rs)"
    unfolding weighted_hs_def by (simp add: field_simps)
  with h show ?thesis by simp
qed

lemma sum_identical:
  fixes f :: "'a \<Rightarrow> real"
  shows "\<forall>x\<in>set rs. f x = f r \<Longrightarrow> (\<Sum>x\<leftarrow>r # rs. f x) = real (length (r # rs)) * f r"
  by (induction rs) (simp_all add: algebra_simps)

lemma merge_hs_identical:
  assumes same: "\<forall>x\<in>set rs. kills x = kills r \<and> hsPercent x = hsPercent r" and pos: "0 < kills r"
  shows "hsPercent (foldl mergeStat r rs) = hsPercent r"
proof (cases "hsPercent r")
  case None
  with same have "\<forall>x\<in>set (r # rs). hsPercent x = None" by simp
  then show ?thesis using None by (simp only: merge_hs_None)
next
  case (Some h)
  have k: "(\<Sum>x\<leftarrow>r # rs. kills x) = real (length (r # rs)) * kills r"
    using same by (intro sum_identical) simp
  have "\<forall>x\<in>set rs. kills x * (case hsPercent x of None \<Rightarrow> 0 | Some h \<Rightarrow> h)
        = kills r * (case hsPercent r of None \<Rightarrow> 0 | Some h \<Rightarrow> h)"
    using same by simp
  then have kh: "(\<Sum>x\<leftarrow>r # rs. kills x * (case hsPercent x of None \<Rightarrow> 0 | Some h \<Rightarrow> h))
      = real (length (r # rs)) * (kills r * h)"
    using sum_identical[of rs "\<lambda>x. kills x * (case hsPercent x of None \<Rightarrow> 0 | Some h \<Rightarrow> h)" r]
    by (simp add: Some)
  have pre: "\<forall>x\<in>set (r # rs). hsPercent x \<noteq> None \<and> 0 \<le> kills x"
    using same pos Some by auto
  have tot: "0 < (\<Sum>x\<leftarrow>r # rs. kills x)" unfolding k using pos by simp
  have "weighted_hs (r # rs) = h"
    unfolding weighted_hs_def k kh using pos by simp
  with merge_hs_weighted[OF pre tot] Some show ?thesis by simp
qed

lemma avg_opt_same: "avg_opt e e = e"
  by (cases e) (simp_all add: avg_opt_def)

lemma merge_krRatio_identical:
  "\<forall>x\<in>set rs. krRatio x = krRatio r \<Longrightarrow> krRatio (foldl mergeStat r rs) = krRatio r"
  by (induction rs rule: rev_induct) (simp_all add: mergeStat_def Let_def avg_opt_same)

lemma merge_adr_identical:
  "\<forall>x\<in>set rs. adr x = adr r \<Longrightarrow> adr (foldl mergeStat r rs) = adr r"
  by (induction rs rule: rev_induct) (simp_all add: mergeStat_def Let_def avg_opt_same)

lemma merge_kast_identical:
  "\<forall>x\<in>set rs. kast x = kast r \<Longrightarrow> kast (foldl mergeStat r rs) = kast r"
  by (induction rs rule: rev_induct) (simp_all add: mergeStat_def Let_def avg_opt_same)

lemma merge_rating_identical:
  "\<forall>x\<in>set rs. rating x = rating r \<Longrightarrow> rating (foldl mergeStat r rs) = rating r"
  by (induction rs rule: rev_induct) (simp_all add: mergeStat_def Let_def avg_opt_same)

text \<open>
  The rules of the aggregation that hold. Let a player have the rows \<open>r # rs\<close> over the
  maps, in map order. The aggregate has one row for the player, in which kills, deaths
  and assists are the sums over the rows; MVPs and the multi-kill counts are the sums
  over the rows that carry them; with more than one row, \<open>kdDiff\<close> and \<open>kdRatio\<close> are
  recomputed from the summed kills and deaths; when every row has a headshot percentage,
  kills are non-negative and the total is positive, the headshot percentage is the
  kills-weighted average. For rows with identical values the sums are the row count
  times the common value, the headshot percentage is the common one when that player has
  kills, and K/R ratio, ADR, KAST and rating are the common value.
\<close>

lemma aggregate_sums:
  assumes rows: "playerRows ms teamKey pid = r # rs"
  shows "\<exists>a. a \<in> set (aggregatePlayerStats ms teamKey) \<and> playerId a = pid \<and>
     kills a = (\<Sum>x\<leftarrow>r # rs. kills x) \<and>
     deaths a = (\<Sum>x\<leftarrow>r # rs. deaths x) \<and>
     assists a = (\<Sum>x\<leftarrow>r # rs. assists x) \<and>
     mvps a = opt_total (map mvps (r # rs)) \<and>
     tripleKills a = opt_total (map tripleKills (r # rs)) \<and>
     quadroKills a = opt_total (map quadroKills (r # rs)) \<and>
     pentaKills a = opt_total (map pentaKills (r # rs)) \<and>
     (rs \<noteq> [] \<longrightarrow> kdDiff a = kills a - deaths a \<and>
                  kdRatio a = (if deaths a > 0 then kills a / deaths a else kills a)) \<and>
     ((\<forall>x\<in>set (r # rs). hsPercent x \<noteq> None \<and> 0 \<le> kills x) \<and> 0 < (\<Sum>x\<leftarrow>r # rs. kills x)
        \<longrightarrow> hsPercent a = Some (weighted_hs (r # rs))) \<and>
     ((\<forall>x\<in>set rs. kills x = kills r \<and> deaths x = deaths r \<and> assists x = assists r \<and>
                   hsPercent x = hsPercent r) \<longrightarrow>
        kills a = real (length (r # rs)) * kills r \<and>
        deaths a = real (length (r # rs)) * deaths r \<and>
        assists a = real (length (r # rs)) * assists r \<and>
        (0 < kills r \<longrightarrow> hsPercent a = hsPercent r)) \<and>
     ((\<forall>x\<in>set rs. krRatio x = krRatio r) \<longrightarrow> krRatio a = krRatio r) \<and>
     ((\<forall>x\<in>set rs. adr x = adr r) \<longrightarrow> adr a = adr r) \<and>
     ((\<forall>x\<in>set rs. kast x = kast r) \<longrightarrow> kast a = kast r) \<and>
     ((\<forall>x\<in>set rs. rating x = rating r) \<longrightarrow> rating a = rating r)"
proof -
  let ?a = "foldl mergeStat r rs"
  have mem: "?a \<in> set (aggregatePlayerStats ms teamKey)"
    using rows by (auto simp: aggregatePlayerStats_mem)
  have "r \<in> set (playerRows ms teamKey pid)" using rows by simp
  then have pid: "playerId ?a = pid" by (simp add: merge_playerId playerRows_def)
  have kd: "rs \<noteq> [] \<longrightarrow> kdDiff ?a = kills ?a - deaths ?a \<and>
                  kdRatio ?a = (if deaths ?a > 0 then kills ?a / deaths ?a else kills ?a)"
    using merge_kd[of rs r] by (simp add: kd_inv_def)
  have hs: "(\<forall>x\<in>set (r # rs). hsPercent x \<noteq> None \<and> 0 \<le> kills x) \<and> 0 < (\<Sum>x\<leftarrow>r # rs. kills x)
        \<longrightarrow> hsPercent ?a = Some (weighted_hs (r # rs))"
    using merge_hs_weighted[of r rs] by blast
  have ident: "(\<forall>x\<in>set rs. kills x = kills r \<and> deaths x = deaths r \<and> assists x = assists r \<and>
                   hsPercent x = hsPercent r) \<longrightarrow>
        kills ?a = real (length (r # rs)) * kills r \<and>
        deaths ?a = real (length (r # rs)) * deaths r \<and>
        assists ?a = real (length (r # rs)) * assists r \<and>
        (0 < kills r \<longrightarrow> hsPercent ?a = hsPercent r)"
  proof (intro impI conjI)
    assume same: "\<forall>x\<in>set rs. kills x = kills r \<and> deaths x = deaths r \<and> assists x = assists r \<and>
                   hsPercent x = hsPercent r"
    show "kills ?a = real (length (r # rs)) * kills r"
      unfolding merge_kills using same by (intro sum_identical) simp
    show "deaths ?a = real (length (r # rs)) * deaths r"
      unfolding merge_deaths using same by (intro sum_identical) simp
    show "assists ?a = real (length (r # rs)) * assists r"
      unfolding merge_assists using same by (intro sum_identical) simp
    assume "0 < kills r"
    with same show "hsPercent ?a = hsPercent r" by (intro merge_hs_identical) simp_all
  qed
  show ?thesis
    apply (rule exI[of _ ?a])
    apply (intro conjI)
                  apply (rule mem)
                 apply (rule pid)
                apply (rule merge_kills)
               apply (rule merge_deaths)
              apply (rule merge_assists)
             apply (rule merge_mvps)
            apply (rule merge_tripleKills)
           apply (rule merge_quadroKills)
          apply (rule merge_pentaKills)
         apply (rule kd)
        apply (rule hs)
       apply (rule ident)
      apply (blast intro: merge_krRatio_identical)
     apply (blast intro: merge_adr_identical)
    apply (blast intro: merge_kast_identical)
    apply (blast intro: merge_rating_identical)
    done
qed

lemma aggregate_sums_example:
  "\<exists>a. a \<in> set (aggregatePlayerStats three_maps team1Players) \<and> playerId a = ''p1'' \<and>
        kills a = 60 \<and> deaths a = 30 \<and> assists a = 9 \<and> mvps a = Some 6 \<and>
        kdDiff a = 30 \<and> kdRatio a = 2 \<and> hsPercent a = Some 25 \<and>
        krRatio a = Some (3 / 4) \<and> adr a = Some 80"
proof -
  have rows: "playerRows three_maps team1Players ''p1'' = example_row # [example_row, example_row]"
    by (simp add: playerRows_def three_maps_def map_of_rows_def example_row_def)
  have same: "\<forall>x\<in>set [example_row, example_row]. kills x = kills example_row \<and>
      deaths x = deaths example_row \<and> assists x = assists example_row \<and>
      hsPercent x = hsPercent example_row" by simp
  have pos: "0 < kills example_row" by (simp add: example_row_def)
  have kr: "\<forall>x\<in>set [example_row, example_row]. krRatio x = krRatio example_row" by simp
  have ad: "\<forall>x\<in>set [example_row, example_row]. adr x = adr example_row" by simp
  show ?thesis
    using aggregate_sums[OF rows]
  proof (elim exE conjE, goal_cases)
    case (1 a)
    have k: "kills a = 60" "deaths a = 30" "assists a = 9" "mvps a = Some 6"
      using 1(3-6) by (simp_all add: example_row_def opt_total_def)
    have kd: "kdDiff a = 30" "kdRatio a = 2" using 1(10) k by simp_all
    from 1(12) same pos have "hsPercent a = hsPercent example_row" by blast
    then have hs: "hsPercent a = Some 25" by (simp add: example_row_def)
    from 1(13) kr have "krRatio a = krRatio example_row" by blast
    then have krv: "krRatio a = Some (3 / 4)" by (simp add: example_row_def)
    from 1(14) ad have "adr a = adr example_row" by blast
    then have adv: "adr a = Some 80" by (simp add: example_row_def)
    show ?case
      using 1(1,2) k kd hs krv adv by (intro exI[of _ a] conjI) assumption+
  qed
qed

text \<open>
  C5. The averaged fields are not the unweighted average over the maps. Each merge
  halves the sum of the value so far and the next map's value, so from the third map on
  the later maps weigh more and the result depends on the map order: for a player with
  ADR 60, 80 and 100 on three maps the aggregate ADR is 85, and 75 when the maps come in
  the opposite order, while the average is 80.
\<close>

theorem averaged_fields_three_maps:
  "map adr (aggregatePlayerStats (adr_maps [60, 80, 100]) team1Players) = [Some 85] \<and>
   map adr (aggregatePlayerStats (adr_maps [100, 80, 60]) team1Players) = [Some 75] \<and>
   mean [60, 80, 100] = 80 \<and> mean [100, 80, 60] = 80"
  by (simp add: aggregatePlayerStats_def aggregatePlayerMap_def aggregateStep_def mergeStat_def
      avg_opt_def sum_opt_def adr_maps_def map_of_rows_def example_row_def mean_def Let_def)

text \<open>
  C6. Every player record that the FACEIT normalizer or the PandaScore normalizer
  emits satisfies \<open>kdDiff = kills - deaths\<close>, \<open>kdRatio = kills / deaths\<close> when deaths
  are positive and \<open>kdRatio = kills\<close> when deaths are 0; the rows of the cross-map
  aggregate satisfy it whenever the per-map rows do.
\<close>

theorem kd_invariant:
  "(\<forall>out. normalizeFaceitStats pf st n1 n2 = Some out \<longrightarrow> (\<forall>a\<in>emitted out. kd_inv a)) \<and>
   (\<forall>out. normalizePandaScoreStats pstats games m1 m2 t1 t2 i1 i2 names = Some out
       \<longrightarrow> (\<forall>a\<in>emitted out. kd_inv a)) \<and>
   ((\<forall>m\<in>set ms. \<forall>p\<in>set (teamKey m). kd_inv p)
       \<longrightarrow> (\<forall>a\<in>set (aggregatePlayerStats ms teamKey). kd_inv a))"
proof (intro conjI allI impI ballI)
  fix out a
  assume "normalizeFaceitStats pf st n1 n2 = Some out" "a \<in> emitted out"
  then obtain p where "a = normalizePlayer pf p" by (rule faceit_emitted)
  then show "kd_inv a" by (simp add: kd_inv_normalizePlayer)
next
  fix out a
  assume "normalizePandaScoreStats pstats games m1 m2 t1 t2 i1 i2 names = Some out"
    "a \<in> emitted out"
  then obtain ps where "a = normalizePS names ps" by (rule ps_emitted)
  then show "kd_inv a" by (simp add: kd_inv_normalizePS)
next
  fix a
  assume inp: "\<forall>m\<in>set ms. \<forall>p\<in>set (teamKey m). kd_inv p"
    and "a \<in> set (aggregatePlayerStats ms teamKey)"
  then obtain pid r rs where rows: "playerRows ms teamKey pid = r # rs"
    and a: "a = foldl mergeStat r rs"
    by (auto simp: aggregatePlayerStats_mem)
  show "kd_inv a"
  proof (cases "rs = []")
    case True
    have "r \<in> set (playerRows ms teamKey pid)" using rows by simp
    then have "r \<in> set (concat (map teamKey ms))" by (simp add: playerRows_def)
    with inp have "kd_inv r" by auto
    with True a show ?thesis by simp
  next
    case False
    with a show ?thesis by (simp add: merge_kd)
  qed
qed

theorem kd_invariant_witness:
  "(\<exists>out a. normalizeFaceitStats (\<lambda>s. None) faceit_example ''A'' ''B'' = Some out \<and>
        a \<in> emitted out \<and> kd_inv a) \<and>
   (\<exists>out a. normalizePandaScoreStats [ps_player 11 (Some 80), ps_player 12 None] ps_example_games
          ''A'' ''B'' 1 2 None None Map.empty = Some out \<and>
        a \<in> emitted out \<and> kd_inv a) \<and>
   (\<exists>a. a \<in> set (aggregatePlayerStats three_maps team1Players) \<and> kd_inv a)"
proof -
  note kd = kd_invariant[of "\<lambda>s. None" faceit_example "''A''" "''B''"
      "[ps_player 11 (Some 80), ps_player 12 None]" ps_example_games "''A''" "''B''" 1 2 None None
      Map.empty three_maps team1Players]
  obtain out1 where o1: "normalizeFaceitStats (\<lambda>s. None) faceit_example ''A'' ''B'' = Some out1"
    by (simp add: normalizeFaceitStats_def faceit_example_def)
  have e1: "normalizePlayer (\<lambda>s. None) faceit_player \<in> emitted out1"
    using o1 by (auto simp: normalizeFaceitStats_def faceit_example_def emitted_def
        faceit_map_def team_at_def team_players_def Let_def)
  obtain out2 where o2: "normalizePandaScoreStats [ps_player 11 (Some 80), ps_player 12 None]
      ps_example_games ''A'' ''B'' 1 2 None None Map.empty = Some out2"
    by (simp add: normalizePandaScoreStats_def ps_example_games_def Let_def)
  have e2: "normalizePS Map.empty (ps_player 11 (Some 80)) \<in> emitted out2"
    using o2 by (auto simp: normalizePandaScoreStats_def ps_example_games_def emitted_def
        ps_map_def ps_player_def Let_def)
  have inp: "\<forall>m\<in>set three_maps. \<forall>p\<in>set (team1Players m). kd_inv p"
    by (simp add: three_maps_def map_of_rows_def example_row_def kd_inv_def)
  have "aggregatePlayerStats three_maps team1Players \<noteq> []"
    by (simp add: aggregatePlayerStats_def aggregatePlayerMap_def three_maps_def
        map_of_rows_def aggregateStep_def example_row_def)
  then obtain a3 where a3: "a3 \<in> set (aggregatePlayerStats three_maps team1Players)"
    by (cases "aggregatePlayerStats three_maps team1Players") auto
  from kd o1 e1 o2 e2 inp a3 show ?thesis by blast
qed

text \<open>
  C7, as amended. The PandaScore and Grid normalizers derive the headshot percentage as
  \<open>100 * headshots / kills\<close> when kills are positive and as 0 otherwise. The FACEIT
  normalizer does not derive it: it passes on the upstream field \<open>Headshots %\<close>, parsed,
  and leaves it undefined when that field is absent or does not parse.
\<close>

theorem headshot_percentage_sources:
  "hsPercent (normalizePS names ps) =
     Some (if ps_kills (stats ps) > 0
           then 100 * ps_headshots (stats ps) / ps_kills (stats ps) else 0) \<and>
   hsPercent (normalizePlayer_grid gp totalRounds) =
     Some (if grid_kills gp > 0 then 100 * grid_headshots gp / grid_kills gp else 0) \<and>
   hsPercent (normalizePlayer pf fp) = parseNumOpt pf (player_stats fp ''Headshots %'')"
  by (simp add: normalizePS_def normalizePlayer_grid_def normalizePlayer_def Let_def)

text \<open>
  C7, as stated, fails for FACEIT: a player with 10 kills, 5 headshots and an upstream
  \<open>Headshots %\<close> of 40 gets 40, not 50.
\<close>

theorem faceit_headshots_not_derived:
  "\<not> (\<forall>pf p. hsPercent (normalizePlayer pf p) =
        Some (if kills (normalizePlayer pf p) > 0
              then 100 * parseNum pf (player_stats p ''Headshots'') / kills (normalizePlayer pf p)
              else 0))"
proof
  assume "\<forall>pf p. hsPercent (normalizePlayer pf p) =
        Some (if kills (normalizePlayer pf p) > 0
              then 100 * parseNum pf (player_stats p ''Headshots'') / kills (normalizePlayer pf p)
              else 0)"
  then have "hsPercent (normalizePlayer (\<lambda>s. None) faceit_player) =
        Some (if kills (normalizePlayer (\<lambda>s. None) faceit_player) > 0
              then 100 * parseNum (\<lambda>s. None) (player_stats faceit_player ''Headshots'')
                     / kills (normalizePlayer (\<lambda>s. None) faceit_player)
              else 0)" by blast
  then show False
    by (simp add: normalizePlayer_def faceit_player_def parseNum_def parseNumOpt_def Let_def)
qed

lemma populated_iff:
  "c \<in> populated a \<longleftrightarrow>
     c \<in> core_columns \<or> (c = col_hsPercent \<and> hsPercent a \<noteq> None) \<or>
     (c = col_krRatio \<and> krRatio a \<noteq> None) \<or> (c = col_mvps \<and> mvps a \<noteq> None) \<or>
     (c = col_adr \<and> adr a \<noteq> None) \<or> (c = col_kast \<and> kast a \<noteq> None) \<or>
     (c = col_rating \<and> rating a \<noteq> None)"
  unfolding populated_def by simp

lemma populated_normalizePlayer:
  "populated (normalizePlayer pf p) \<subseteq> core_columns \<union> {col_hsPercent, col_krRatio, col_mvps}"
proof
  fix c assume "c \<in> populated (normalizePlayer pf p)"
  then show "c \<in> core_columns \<union> {col_hsPercent, col_krRatio, col_mvps}"
    unfolding populated_iff by (simp add: normalizePlayer_def Let_def) blast
qed

lemma core_populated: "core_columns \<subseteq> populated a"
  by (simp add: populated_def le_supI1)

lemma faceit_columns_set:
  "set faceit_columns = core_columns \<union> {col_hsPercent, col_krRatio, col_mvps}"
  by (auto simp: faceit_columns_def core_columns_def)

lemma ps_columns_iff:
  "c \<in> set (ps_columns pstats) \<longleftrightarrow>
     c \<in> core_columns \<or> c = col_hsPercent \<or>
     (c = col_adr \<and> (\<exists>ps\<in>set pstats. ps_adr (stats ps) \<noteq> None)) \<or>
     (c = col_kast \<and> (\<exists>ps\<in>set pstats. ps_kast (stats ps) \<noteq> None)) \<or>
     (c = col_rating \<and> (\<exists>ps\<in>set pstats. ps_rating (stats ps) \<noteq> None))"
  unfolding ps_columns_def core_columns_def list_ex_iff by auto

lemma populated_normalizePS:
  assumes "ps \<in> set pstats"
  shows "populated (normalizePS names ps) \<subseteq> set (ps_columns pstats)"
proof
  fix c assume "c \<in> populated (normalizePS names ps)"
  then have "c \<in> core_columns \<or> c = col_hsPercent \<or>
     (c = col_adr \<and> ps_adr (stats ps) \<noteq> None) \<or>
     (c = col_kast \<and> ps_kast (stats ps) \<noteq> None) \<or>
     (c = col_rating \<and> ps_rating (stats ps) \<noteq> None)"
    unfolding populated_iff by (simp add: normalizePS_def Let_def)
  with assms show "c \<in> set (ps_columns pstats)"
    unfolding ps_columns_iff by blast
qed

text \<open>
  C8, as amended. In a non-null output every column key that an emitted player record
  populates is listed in \<open>availableColumns\<close>, and kills, deaths, assists, \<open>kdDiff\<close> and
  \<open>kdRatio\<close> (with PandaScore also \<open>hsPercent\<close>) are listed and populated in every
  record. The list is per source, not per record: FACEIT always lists \<open>hsPercent\<close>,
  \<open>krRatio\<close> and \<open>mvps\<close>; PandaScore lists \<open>adr\<close>, \<open>kast\<close> and \<open>rating\<close> exactly when
  some input row carries the value.
\<close>

theorem columns_cover_populated:
  "(\<forall>out. normalizeFaceitStats pf st n1 n2 = Some out \<longrightarrow>
      set (availableColumns out) = core_columns \<union> {col_hsPercent, col_krRatio, col_mvps} \<and>
      (\<forall>a\<in>emitted out. core_columns \<subseteq> populated a \<and>
                         populated a \<subseteq> set (availableColumns out))) \<and>
   (\<forall>out. normalizePandaScoreStats pstats games m1 m2 t1 t2 i1 i2 names = Some out \<longrightarrow>
      core_columns \<union> {col_hsPercent} \<subseteq> set (availableColumns out) \<and>
      (col_adr \<in> set (availableColumns out) \<longleftrightarrow> (\<exists>ps\<in>set pstats. ps_adr (stats ps) \<noteq> None)) \<and>
      (col_kast \<in> set (availableColumns out) \<longleftrightarrow> (\<exists>ps\<in>set pstats. ps_kast (stats ps) \<noteq> None)) \<and>
      (col_rating \<in> set (availableColumns out) \<longleftrightarrow> (\<exists>ps\<in>set pstats. ps_rating (stats ps) \<noteq> None)) \<and>
      (\<forall>a\<in>emitted out. core_columns \<union> {col_hsPercent} \<subseteq> populated a \<and>
                         populated a \<subseteq> set (availableColumns out)))"
proof (intro conjI allI impI)
  fix out
  assume o: "normalizeFaceitStats pf st n1 n2 = Some out"
  then have cols: "availableColumns out = faceit_columns"
    by (auto simp: normalizeFaceitStats_def split: if_splits)
  show "set (availableColumns out) = core_columns \<union> {col_hsPercent, col_krRatio, col_mvps}"
    by (simp only: cols faceit_columns_set)
  show "\<forall>a\<in>emitted out. core_columns \<subseteq> populated a \<and> populated a \<subseteq> set (availableColumns out)"
  proof
    fix a assume "a \<in> emitted out"
    with o obtain p where "a = normalizePlayer pf p" by (rule faceit_emitted)
    then show "core_columns \<subseteq> populated a \<and> populated a \<subseteq> set (availableColumns out)"
      using populated_normalizePlayer[of pf p] core_populated[of a]
      by (simp add: cols faceit_columns_set)
  qed
next
  fix out
  assume o: "normalizePandaScoreStats pstats games m1 m2 t1 t2 i1 i2 names = Some out"
  then have cols: "availableColumns out = ps_columns pstats"
    by (auto simp: normalizePandaScoreStats_def Let_def split: if_splits)
  show "core_columns \<union> {col_hsPercent} \<subseteq> set (availableColumns out)"
    unfolding cols using ps_columns_iff[of _ pstats] by blast
  show "col_adr \<in> set (availableColumns out) \<longleftrightarrow> (\<exists>ps\<in>set pstats. ps_adr (stats ps) \<noteq> None)"
    unfolding cols ps_columns_iff by (simp add: core_columns_def)
  show "col_kast \<in> set (availableColumns out) \<longleftrightarrow> (\<exists>ps\<in>set pstats. ps_kast (stats ps) \<noteq> None)"
    unfolding cols ps_columns_iff by (simp add: core_columns_def)
  show "col_rating \<in> set (availableColumns out) \<longleftrightarrow> (\<exists>ps\<in>set pstats. ps_rating (stats ps) \<noteq> None)"
    unfolding cols ps_columns_iff by (simp add: core_columns_def)
  show "\<forall>a\<in>emitted out. core_columns \<union> {col_hsPercent} \<subseteq> populated a \<and>
                         populated a \<subseteq> set (availableColumns out)"
  proof
    fix a assume "a \<in> emitted out"
    with o obtain ps where a: "a = normalizePS names ps" and ps: "ps \<in> set pstats"
      by (rule ps_emitted)
    have "col_hsPercent \<in> populated a"
      unfolding populated_iff by (simp add: a normalizePS_def Let_def)
    with populated_normalizePS[OF ps, of names] core_populated[of a]
    show "core_columns \<union> {col_hsPercent} \<subseteq> populated a \<and>
          populated a \<subseteq> set (availableColumns out)"
      by (simp add: cols a)
  qed
qed

theorem columns_cover_populated_witness:
  "(\<exists>out a. normalizeFaceitStats (\<lambda>s. None) faceit_example ''A'' ''B'' = Some out \<and>
        a \<in> emitted out \<and> populated a \<subseteq> set (availableColumns out) \<and>
        core_columns \<subseteq> populated a) \<and>
   (\<exists>out a. normalizePandaScoreStats [ps_player 11 (Some 80), ps_player 12 None] ps_example_games
          ''A'' ''B'' 1 2 None None Map.empty = Some out \<and>
        a \<in> emitted out \<and> populated a \<subseteq> set (availableColumns out) \<and>
        col_adr \<in> set (availableColumns out))"
proof -
  note cc = columns_cover_populated[of "\<lambda>s. None" faceit_example "''A''" "''B''"
      "[ps_player 11 (Some 80), ps_player 12 None]" ps_example_games "''A''" "''B''" 1 2 None None
      Map.empty]
  obtain out1 where o1: "normalizeFaceitStats (\<lambda>s. None) faceit_example ''A'' ''B'' = Some out1"
    by (simp add: normalizeFaceitStats_def faceit_example_def)
  have e1: "normalizePlayer (\<lambda>s. None) faceit_player \<in> emitted out1"
    using o1 by (auto simp: normalizeFaceitStats_def faceit_example_def emitted_def
        faceit_map_def team_at_def team_players_def Let_def)
  obtain out2 where o2: "normalizePandaScoreStats [ps_player 11 (Some 80), ps_player 12 None]
      ps_example_games ''A'' ''B'' 1 2 None None Map.empty = Some out2"
    by (simp add: normalizePandaScoreStats_def ps_example_games_def Let_def)
  have e2: "normalizePS Map.empty (ps_player 11 (Some 80)) \<in> emitted out2"
    using o2 by (auto simp: normalizePandaScoreStats_def ps_example_games_def emitted_def
        ps_map_def ps_player_def Let_def)
  have adr: "\<exists>ps\<in>set [ps_player 11 (Some 80), ps_player 12 None]. ps_adr (stats ps) \<noteq> None"
    by (simp add: ps_player_def)
  from cc[THEN conjunct1, rule_format, OF o1]
  have f: "\<forall>a\<in>emitted out1. core_columns \<subseteq> populated a \<and>
             populated a \<subseteq> set (availableColumns out1)" by (rule conjunct2)
  from f e1 have f1: "populated (normalizePlayer (\<lambda>s. None) faceit_player)
        \<subseteq> set (availableColumns out1)"
    and f2: "core_columns \<subseteq> populated (normalizePlayer (\<lambda>s. None) faceit_player)"
    by blast+
  note p = cc[THEN conjunct2, rule_format, OF o2]
  from p have g1: "col_adr \<in> set (availableColumns out2) \<longleftrightarrow>
      (\<exists>ps\<in>set [ps_player 11 (Some 80), ps_player 12 None]. ps_adr (stats ps) \<noteq> None)"
    by (elim conjE)
  from p have g2: "\<forall>a\<in>emitted out2. core_columns \<union> {col_hsPercent} \<subseteq> populated a \<and>
                         populated a \<subseteq> set (availableColumns out2)"
    by (elim conjE)
  from g1 adr have g3: "col_adr \<in> set (availableColumns out2)" by (rule iffD2)
  from g2 e2 have g4: "populated (normalizePS Map.empty (ps_player 11 (Some 80)))
        \<subseteq> set (availableColumns out2)" by blast
  show ?thesis
    using o1 e1 f1 f2 o2 e2 g3 g4 by (intro conjI exI) assumption+
qed

text \<open>
  C8, as stated, fails: with two PandaScore rows of which one has an ADR, \<open>adr\<close> is
  listed and the record of the other player leaves it unpopulated.
\<close>

theorem listed_column_unpopulated:
  "\<not> (\<forall>pstats games m1 m2 t1 t2 i1 i2 names out.
        normalizePandaScoreStats pstats games m1 m2 t1 t2 i1 i2 names = Some out \<longrightarrow>
        (\<forall>a\<in>emitted out. populated a = set (availableColumns out)))"
proof
  assume claim: "\<forall>pstats games m1 m2 t1 t2 i1 i2 names out.
        normalizePandaScoreStats pstats games m1 m2 t1 t2 i1 i2 names = Some out \<longrightarrow>
        (\<forall>a\<in>emitted out. populated a = set (availableColumns out))"
  let ?pstats = "[ps_player 11 (Some 80), ps_player 12 None]"
  obtain out where o: "normalizePandaScoreStats ?pstats ps_example_games
      ''A'' ''B'' 1 2 None None Map.empty = Some out"
    by (simp add: normalizePandaScoreStats_def ps_example_games_def Let_def)
  have e: "normalizePS Map.empty (ps_player 12 None) \<in> emitted out"
    using o by (auto simp: normalizePandaScoreStats_def ps_example_games_def emitted_def
        ps_map_def ps_player_def Let_def)
  from o have cols: "availableColumns out = ps_columns ?pstats"
    by (auto simp: normalizePandaScoreStats_def Let_def split: if_splits)
  have listed: "col_adr \<in> set (availableColumns out)"
    unfolding cols ps_columns_iff by (simp add: ps_player_def)
  have "col_adr \<notin> populated (normalizePS Map.empty (ps_player 12 None))"
    unfolding populated_iff by (simp add: normalizePS_def ps_player_def core_columns_def Let_def)
  with claim o e listed show False by blast
qed

section \<open>Theorems about \<open>groupBySerie\<close>\<close>

lemma step_lookup:
  "map_of (groupBySerie_step t groups) k =
     (if groupKey t = k
      then Some (case map_of groups k of None \<Rightarrow> [t] | Some g \<Rightarrow> g @ [t])
      else map_of groups k)"
  by (auto simp: groupBySerie_step_def update_conv' split: option.split)

lemma step_distinct:
  "distinct (map fst groups) \<Longrightarrow> distinct (map fst (groupBySerie_step t groups))"
  by (simp add: groupBySerie_step_def distinct_update split: option.split)

lemma groups_fold_lookup:
  "map_of (fold groupBySerie_step ts acc) k =
     (case map_of acc k of
        None \<Rightarrow> (if filter (\<lambda>t. groupKey t = k) ts = [] then None
                  else Some (filter (\<lambda>t. groupKey t = k) ts))
      | Some g \<Rightarrow> Some (g @ filter (\<lambda>t. groupKey t = k) ts))"
proof (induction ts arbitrary: acc)
  case Nil
  show ?case by (simp split: option.split)
next
  case (Cons t ts)
  show ?case by (simp add: Cons.IH step_lookup split: option.split)
qed

lemma groups_fold_distinct:
  "distinct (map fst acc) \<Longrightarrow> distinct (map fst (fold groupBySerie_step ts acc))"
  by (induction ts arbitrary: acc) (simp_all add: step_distinct)

lemma serieGroups_lookup:
  "map_of (serieGroups ts) k =
     (if filter (\<lambda>t. groupKey t = k) ts = [] then None
      else Some (filter (\<lambda>t. groupKey t = k) ts))"
  by (simp add: serieGroups_def groups_fold_lookup)

lemma serieGroups_distinct: "distinct (map fst (serieGroups ts))"
  by (simp add: serieGroups_def groups_fold_distinct)

lemma serieGroups_entry:
  "(k, g) \<in> set (serieGroups ts) \<longleftrightarrow> g \<noteq> [] \<and> g = filter (\<lambda>t. groupKey t = k) ts"
  using serieGroups_distinct[of ts]
  by (auto simp: serieGroups_lookup map_of_eq_Some_iff[symmetric] split: if_splits)

lemma groupKey_serie:
  "s \<noteq> 0 \<Longrightarrow> groupKey t = SerieKey s \<longleftrightarrow> map_option serie_id (serie t) = Some s"
  by (auto simp: groupKey_def split: option.splits)

lemma filter_map_unique:
  assumes "distinct (map fst al)" "(k, v) \<in> set al" "P (f (k, v))"
    and "\<And>k' v'. (k', v') \<in> set al \<Longrightarrow> k' \<noteq> k \<Longrightarrow> \<not> P (f (k', v'))"
  shows "filter P (map f al) = [f (k, v)]"
  using assms
proof (induction al)
  case Nil
  then show ?case by simp
next
  case (Cons a al)
  show ?case
  proof (cases "a = (k, v)")
    case True
    have "\<forall>x\<in>set al. \<not> P (f x)"
    proof
      fix x assume x: "x \<in> set al"
      then have "fst x \<noteq> k" using Cons.prems(1) True by (auto simp: image_iff)
      with Cons.prems(4)[of "fst x" "snd x"] x show "\<not> P (f x)" by simp
    qed
    then have "filter P (map f al) = []" by (simp add: filter_empty_conv)
    with True Cons.prems(3) show ?thesis by simp
  next
    case False
    with Cons.prems(2) have mem: "(k, v) \<in> set al" by simp
    have "fst a \<noteq> k" using Cons.prems(1) mem by (auto simp: image_iff)
    with Cons.prems(4)[of "fst a" "snd a"] have "\<not> P (f a)" by simp
    moreover have "filter P (map f al) = [f (k, v)]"
      by (rule Cons.IH) (use Cons.prems mem in auto)
    ultimately show ?thesis by simp
  qed
qed

lemma tier_order:
  "tier_rank ''S'' = 0 \<and> tier_rank ''A'' = 1 \<and> tier_rank ''B'' = 2 \<and>
   tier_rank ''C'' = 3 \<and> tier_rank ''D'' = 4 \<and>
   (\<forall>x. TIER_RANK (toLowerCase x) = None \<longrightarrow> tier_rank x = 99)"
  by (simp add: tier_rank_def TIER_RANK_def toLowerCase_def lower_char_def)

lemma bestTier_fold:
  "fold (\<lambda>t best. if tier_rank (tier t) < tier_rank best then tier t else best) g b0 = b \<Longrightarrow>
     (b = b0 \<or> b \<in> tier ` set g) \<and> tier_rank b \<le> tier_rank b0 \<and>
     (\<forall>t\<in>set g. tier_rank b \<le> tier_rank (tier t))"
proof (induction g arbitrary: b0)
  case Nil
  then show ?case by simp
next
  case (Cons t g)
  let ?b1 = "if tier_rank (tier t) < tier_rank b0 then tier t else b0"
  from Cons.prems have "fold (\<lambda>t best. if tier_rank (tier t) < tier_rank best then tier t else best) g ?b1 = b"
    by simp
  from Cons.IH[OF this]
  have ih: "b = ?b1 \<or> b \<in> tier ` set g" "tier_rank b \<le> tier_rank ?b1"
    "\<forall>t\<in>set g. tier_rank b \<le> tier_rank (tier t)" by auto
  have "tier_rank ?b1 \<le> tier_rank b0" "tier_rank ?b1 \<le> tier_rank (tier t)" by auto
  with ih show ?case by (auto split: if_splits)
qed

lemma plain_lookup: "plain_tier t \<Longrightarrow> tier_lookup t = Rank (tier_rank t)"
  by (simp add: plain_tier_def tier_lookup_def tier_rank_def Let_def split: option.splits)

lemma bestTier_plain:
  "plain_tier b0 \<Longrightarrow> \<forall>t\<in>set g. plain_tier (tier t) \<Longrightarrow>
     fold (\<lambda>t best. if rank_less (tier_lookup (tier t)) (tier_lookup best) then tier t else best) g b0
   = fold (\<lambda>t best. if tier_rank (tier t) < tier_rank best then tier t else best) g b0"
proof (induction g arbitrary: b0)
  case Nil
  show ?case by simp
next
  case (Cons t g)
  from Cons.prems have pt: "plain_tier (tier t)" and pg: "\<forall>t\<in>set g. plain_tier (tier t)"
    by simp_all
  let ?b1 = "if tier_rank (tier t) < tier_rank b0 then tier t else b0"
  have step: "(if rank_less (tier_lookup (tier t)) (tier_lookup b0) then tier t else b0) = ?b1"
    by (simp add: plain_lookup[OF pt] plain_lookup[OF Cons.prems(1)])
  have "plain_tier ?b1" using pt Cons.prems(1) by simp
  from Cons.IH[OF this pg] show ?case by (simp only: fold_simps step)
qed

lemma bestTier_min:
  assumes "g \<noteq> []" and pl: "\<forall>t\<in>set g. plain_tier (tier t)"
  shows "\<exists>t\<in>set g. bestTier g = tier t \<and> (\<forall>u\<in>set g. tier_rank (tier t) \<le> tier_rank (tier u))"
proof -
  from assms have hdg: "hd g \<in> set g" by simp
  with pl have "plain_tier (tier (hd g))" by blast
  then have eq: "bestTier g =
      fold (\<lambda>t best. if tier_rank (tier t) < tier_rank best then tier t else best) g (tier (hd g))"
    unfolding bestTier_def using pl by (rule bestTier_plain)
  from bestTier_fold[OF eq[symmetric]]
  have b: "bestTier g = tier (hd g) \<or> bestTier g \<in> tier ` set g"
    and m: "\<forall>t\<in>set g. tier_rank (bestTier g) \<le> tier_rank (tier t)"
    by simp_all
  from hdg b have "bestTier g \<in> tier ` set g" by auto
  then obtain t where "t \<in> set g" "bestTier g = tier t" by auto
  with m show ?thesis by auto
qed

text \<open>
  The hypothesis on the tiers is needed: a first stage whose tier is \<open>constructor\<close> keeps
  its tier against a second stage of tier A, because no number is below the looked-up
  function.
\<close>

lemma inherited_key_keeps_tier: "map ev_tier (groupBySerie odd_stages) = [''CONSTRUCTOR'']"
  by code_simp

text \<open>
  C9. When at least two tournaments of the list carry the same non-zero series id and
  their tiers are plain, \<open>groupBySerie\<close> emits exactly one event for that series. It
  counts those tournaments; its status is ongoing if one of them is ongoing, else
  upcoming if one is upcoming, else completed; and its tier is the tier, in upper case,
  of a member whose rank is the smallest among the members, the ranks being 0 to 4 for
  S, A, B, C, D and 99 for any other tier.
\<close>

theorem serie_group_event:
  assumes s: "s \<noteq> 0" and two: "2 \<le> length (membersOf s ts)"
    and plain: "list_all (\<lambda>t. plain_tier (tier t)) (membersOf s ts)"
  shows "\<exists>e. filter (\<lambda>e. serieId e = Some s) (groupBySerie ts) = [e] \<and>
           tournamentCount e = Some (length (membersOf s ts)) \<and>
           ((\<exists>t\<in>set (membersOf s ts). t_status t = ongoing) \<longrightarrow> ev_status e = ongoing) \<and>
           (\<not> (\<exists>t\<in>set (membersOf s ts). t_status t = ongoing) \<and>
              (\<exists>t\<in>set (membersOf s ts). t_status t = upcoming) \<longrightarrow> ev_status e = upcoming) \<and>
           (\<not> (\<exists>t\<in>set (membersOf s ts). t_status t = ongoing) \<and>
            \<not> (\<exists>t\<in>set (membersOf s ts). t_status t = upcoming) \<longrightarrow> ev_status e = completed) \<and>
           (\<exists>t\<in>set (membersOf s ts). ev_tier e = shown_tier (tier t) \<and>
              (\<forall>u\<in>set (membersOf s ts). tier_rank (tier t) \<le> tier_rank (tier u))) \<and>
           tier_rank ''S'' = 0 \<and> tier_rank ''A'' = 1 \<and> tier_rank ''B'' = 2 \<and>
           tier_rank ''C'' = 3 \<and> tier_rank ''D'' = 4 \<and>
           (\<forall>x. TIER_RANK (toLowerCase x) = None \<longrightarrow> tier_rank x = 99)"
proof -
  let ?g = "membersOf s ts"
  let ?ev = "\<lambda>(key, grp). if length grp = 1 then singleEvent (hd grp) else multiEvent grp"
  from plain have pl: "\<forall>t\<in>set ?g. plain_tier (tier t)" by (simp add: list_all_iff)
  have g_eq: "?g = filter (\<lambda>t. groupKey t = SerieKey s) ts"
    unfolding membersOf_def using groupKey_serie[OF s] by (intro filter_cong) auto
  from two have ne: "?g \<noteq> []" by auto
  then have entry: "(SerieKey s, ?g) \<in> set (serieGroups ts)"
    by (simp add: serieGroups_entry g_eq)
  have hdm: "hd ?g \<in> set ?g" using ne by simp
  then have hd_id: "map_option serie_id (serie (hd ?g)) = Some s" by (simp add: membersOf_def)
  have ev: "?ev (SerieKey s, ?g) = multiEvent ?g" using two by simp
  have sid: "serieId (multiEvent ?g) = Some s" by (simp add: multiEvent_def Let_def hd_id)
  have other: "\<not> serieId (?ev (k', g')) = Some s"
    if m: "(k', g') \<in> set (serieGroups ts)" and k: "k' \<noteq> SerieKey s" for k' g'
  proof (cases "length g' = 1")
    case True
    then show ?thesis by (simp add: singleEvent_def)
  next
    case False
    have g': "g' \<noteq> [] \<and> g' = filter (\<lambda>t. groupKey t = k') ts"
      using m by (rule iffD1[OF serieGroups_entry])
    from g' have ne': "g' \<noteq> []" by (rule conjunct1)
    from g' have eq: "g' = filter (\<lambda>t. groupKey t = k') ts" by (rule conjunct2)
    have "\<forall>t\<in>set g'. groupKey t = k'" by (subst eq) simp
    moreover have "hd g' \<in> set g'" using ne' by (rule hd_in_set)
    ultimately have "groupKey (hd g') = k'" by blast
    with k groupKey_serie[OF s, of "hd g'"]
    have "map_option serie_id (serie (hd g')) \<noteq> Some s" by simp
    with False show ?thesis by (simp add: multiEvent_def Let_def)
  qed
  have uniq: "filter (\<lambda>e. serieId e = Some s) (groupBySerie ts) = [multiEvent ?g]"
  proof -
    have "filter (\<lambda>e. serieId e = Some s) (map ?ev (serieGroups ts)) = [?ev (SerieKey s, ?g)]"
      by (rule filter_map_unique[OF serieGroups_distinct entry])
        (use ev sid other in auto)
    with ev show ?thesis by (simp add: groupBySerie_def)
  qed
  have cnt: "tournamentCount (multiEvent ?g) = Some (length ?g)"
    by (simp add: multiEvent_def Let_def)
  have st: "ev_status (multiEvent ?g) = aggregateStatus ?g"
    by (simp add: multiEvent_def Let_def)
  have tr: "ev_tier (multiEvent ?g) = shown_tier (bestTier ?g)"
    by (simp add: multiEvent_def Let_def)
  from bestTier_min[OF ne pl] obtain t where t: "t \<in> set ?g" "bestTier ?g = tier t"
    "\<forall>u\<in>set ?g. tier_rank (tier t) \<le> tier_rank (tier u)" by blast
  have s1: "(\<exists>t\<in>set ?g. t_status t = ongoing) \<longrightarrow> ev_status (multiEvent ?g) = ongoing"
    by (simp add: st aggregateStatus_def list_ex_iff)
  have s2: "\<not> (\<exists>t\<in>set ?g. t_status t = ongoing) \<and> (\<exists>t\<in>set ?g. t_status t = upcoming)
      \<longrightarrow> ev_status (multiEvent ?g) = upcoming"
    by (simp add: st aggregateStatus_def list_ex_iff)
  have s3: "\<not> (\<exists>t\<in>set ?g. t_status t = ongoing) \<and> \<not> (\<exists>t\<in>set ?g. t_status t = upcoming)
      \<longrightarrow> ev_status (multiEvent ?g) = completed"
    by (simp add: st aggregateStatus_def list_ex_iff)
  have t4: "\<exists>t\<in>set ?g. ev_tier (multiEvent ?g) = shown_tier (tier t) \<and>
              (\<forall>u\<in>set ?g. tier_rank (tier t) \<le> tier_rank (tier u))"
    using t by (auto simp: tr)
  show ?thesis
    apply (rule exI[of _ "multiEvent ?g"])
    apply (intro conjI)
         apply (rule uniq)
        apply (rule cnt)
       apply (rule s1)
      apply (rule s2)
           apply (rule s3)
          apply (rule t4)
         apply (simp_all add: tier_order)
    done
qed

theorem serie_group_event_witness:
  "(42::int) \<noteq> 0 \<and> 2 \<le> length (membersOf 42 two_stages) \<and>
   list_all (\<lambda>t. plain_tier (tier t)) (membersOf 42 two_stages) \<and>
   (\<exists>e. filter (\<lambda>e. serieId e = Some 42) (groupBySerie two_stages) = [e] \<and>
        ev_tier e = ''S'' \<and> ev_status e = ongoing)"
proof -
  have s: "(42::int) \<noteq> 0" by simp
  have m: "membersOf 42 two_stages = [stage 1 ''A'' completed, stage 2 ''S'' ongoing]"
    by (simp add: membersOf_def two_stages_def stage_def)
  then have two: "2 \<le> length (membersOf 42 two_stages)" by simp
  have pl: "list_all (\<lambda>t. plain_tier (tier t)) (membersOf 42 two_stages)"
    by (simp add: m stage_def plain_tier_def toLowerCase_def lower_char_def)
  from serie_group_event[OF s two pl] obtain e where
    e: "filter (\<lambda>e. serieId e = Some 42) (groupBySerie two_stages) = [e]"
    and st: "(\<exists>t\<in>set (membersOf 42 two_stages). t_status t = ongoing) \<longrightarrow> ev_status e = ongoing"
    and tr: "\<exists>t\<in>set (membersOf 42 two_stages). ev_tier e = shown_tier (tier t) \<and>
              (\<forall>u\<in>set (membersOf 42 two_stages). tier_rank (tier t) \<le> tier_rank (tier u))"
    by blast
  have ra: "tier_rank ''A'' = 1" and rs: "tier_rank ''S'' = 0"
    by (simp_all add: tier_rank_def TIER_RANK_def toLowerCase_def lower_char_def)
  have sh: "shown_tier ''S'' = ''S''"
    by (simp add: shown_tier_def toUpperCase_def upper_char_def)
  from st have "ev_status e = ongoing" by (simp add: m stage_def)
  moreover from tr have "ev_tier e = ''S''"
    by (auto simp: m stage_def ra rs sh)
  ultimately show ?thesis using s two pl e by blast
qed

end
